theory Spec2Isabelle
  imports Complex_Main
begin

section \<open>Numbers, vectors and typed arrays\<close>

text \<open>
  The engine of \<^verbatim>\<open>src/ts/chameleon.ts\<close> computes with JavaScript numbers. They are
  modelled by the reals: every definition below is the source expression read over the
  reals, and the concrete inputs used further down are small integers and short decimals.
  Two places where JavaScript leaves the finite numbers are written out: a property read
  that yields \<^verbatim>\<open>undefined\<close> (arithmetic on it gives \<^verbatim>\<open>NaN\<close>, and every comparison with
  \<^verbatim>\<open>NaN\<close> is false), and a division by zero (the value \<open>None\<close> of \<open>js_div\<close>).
\<close>

type_synonym Vector2 = "real \<times> real"
type_synonym Vector3 = "real \<times> real \<times> real"

datatype error = TypeError | RangeError

definition js_div :: "real \<Rightarrow> real \<Rightarrow> real option" where
  "js_div p q = (if q = 0 then None else Some (p / q))"

definition dot :: "Vector3 \<Rightarrow> Vector3 \<Rightarrow> real" where
  "dot p q = (case p of (px, py, pz) \<Rightarrow> case q of (qx, qy, qz) \<Rightarrow> px * qx + py * qy + pz * qz)"

definition vlength :: "Vector3 \<Rightarrow> real" where
  "vlength p = sqrt (dot p p)"

text \<open>\<^verbatim>\<open>THREE.Vector3.normalize\<close>: the vector divided by its length; the zero vector is left
  as it is.\<close>

definition normalize_vector :: "Vector3 \<Rightarrow> Vector3" where
  "normalize_vector p =
     (case p of (px, py, pz) \<Rightarrow>
        if vlength p = 0 then (0, 0, 0)
        else (px / vlength p, py / vlength p, pz / vlength p))"

text \<open>
  A typed array (\<^verbatim>\<open>Uint8Array\<close>, \<^verbatim>\<open>Uint32Array\<close>) has a fixed length. Reading outside it
  gives \<^verbatim>\<open>undefined\<close>, writing outside it is dropped without an error, and a stored value
  is reduced modulo \<open>2 ^ w\<close>.
\<close>

definition ta_get :: "nat list \<Rightarrow> int \<Rightarrow> nat option" where
  "ta_get xs i = (if 0 \<le> i \<and> i < int (length xs) then Some (xs ! nat i) else None)"

definition ta_set :: "nat \<Rightarrow> nat list \<Rightarrow> int \<Rightarrow> int \<Rightarrow> nat list" where
  "ta_set w xs i v =
     (if 0 \<le> i \<and> i < int (length xs) then xs[nat i := nat (v mod 2 ^ w)] else xs)"

text \<open>Truthiness of an element read: \<^verbatim>\<open>undefined\<close> and \<open>0\<close> are falsy.\<close>

fun truthy :: "nat option \<Rightarrow> bool" where
  "truthy None = False"
| "truthy (Some n) = (n \<noteq> 0)"

text \<open>An ordinary array read: \<^verbatim>\<open>undefined\<close> outside the array.\<close>

definition arr_get :: "'a list \<Rightarrow> int \<Rightarrow> 'a option" where
  "arr_get xs i = (if 0 \<le> i \<and> i < int (length xs) then Some (xs ! nat i) else None)"

section \<open>AffectedFacesRecorder\<close>

record AffectedFacesRecorder =
  nAffectedFaces :: nat
  affectedFaces :: "nat list"
  isFaceAffected :: "nat list"
  isFaceAffectedEmpty :: "nat list"

definition new_AffectedFacesRecorder :: "nat \<Rightarrow> AffectedFacesRecorder" where
  "new_AffectedFacesRecorder nFaces =
     \<lparr> nAffectedFaces = 0,
       affectedFaces = replicate nFaces 0,
       isFaceAffected = replicate nFaces 0,
       isFaceAffectedEmpty = replicate nFaces 0 \<rparr>"

definition add :: "int \<Rightarrow> AffectedFacesRecorder \<Rightarrow> AffectedFacesRecorder" where
  "add faceIndex r =
     (if \<not> truthy (ta_get (isFaceAffected r) faceIndex) then
        r \<lparr> isFaceAffected := ta_set 8 (isFaceAffected r) faceIndex 1,
            affectedFaces := ta_set 32 (affectedFaces r) (int (nAffectedFaces r)) faceIndex,
            nAffectedFaces := nAffectedFaces r + 1 \<rparr>
      else r)"

text \<open>\<^verbatim>\<open>TypedArray.set(source)\<close> copies the source over the start of the target, and throws
  when the source is the longer one.\<close>

definition ta_copy :: "nat list \<Rightarrow> nat list \<Rightarrow> error + nat list" where
  "ta_copy target source =
     (if length source > length target then Inl RangeError
      else Inr (source @ drop (length source) target))"

definition reset :: "AffectedFacesRecorder \<Rightarrow> error + AffectedFacesRecorder" where
  "reset r =
     (case ta_copy (isFaceAffected r) (isFaceAffectedEmpty r) of
        Inl e \<Rightarrow> Inl e
      | Inr cleared \<Rightarrow> Inr (r \<lparr> nAffectedFaces := 0, isFaceAffected := cleared \<rparr>))"

text \<open>The arguments \<^verbatim>\<open>forEach\<close> passes to its callback, in order: the first
  \<open>nAffectedFaces\<close> element reads of \<open>affectedFaces\<close>.\<close>

definition forEach_args :: "AffectedFacesRecorder \<Rightarrow> nat option list" where
  "forEach_args r = map (\<lambda>i. ta_get (affectedFaces r) (int i)) [0..<nAffectedFaces r]"

definition contains :: "AffectedFacesRecorder \<Rightarrow> int \<Rightarrow> bool" where
  "contains r faceIndex = truthy (ta_get (isFaceAffected r) faceIndex)"

section \<open>Collision tests\<close>

text \<open>
  The first argument of \<^verbatim>\<open>_pointCircleCollide\<close> is read through its properties
  \<^verbatim>\<open>x\<close> and \<^verbatim>\<open>y\<close>. The callers pass either a vector object or, for the nearest point
  on a segment, a two-element array, which has no such properties.
\<close>

datatype point = Vec Vector2 | Arr "real list"

fun prop_x :: "point \<Rightarrow> real option" where
  "prop_x (Vec p) = Some (fst p)"
| "prop_x (Arr _) = None"

fun prop_y :: "point \<Rightarrow> real option" where
  "prop_y (Vec p) = Some (snd p)"
| "prop_y (Arr _) = None"

definition pointCircleCollide :: "point \<Rightarrow> Vector2 \<Rightarrow> real \<Rightarrow> bool" where
  "pointCircleCollide pt circle r =
     (if r = 0 then False
      else case (prop_x pt, prop_y pt) of
             (Some ptx, Some pty) \<Rightarrow>
               (let dx = fst circle - ptx; dy = snd circle - pty
                in dx * dx + dy * dy \<le> r * r)
           | _ \<Rightarrow> False)"

definition lineCircleCollide :: "Vector2 \<Rightarrow> Vector2 \<Rightarrow> Vector2 \<Rightarrow> real \<Rightarrow> bool" where
  "lineCircleCollide a b circle radius =
     (if pointCircleCollide (Vec a) circle radius then True
      else if pointCircleCollide (Vec b) circle radius then True
      else
        (let x1 = fst a; y1 = snd a; x2 = fst b; y2 = snd b;
             cx = fst circle; cy = snd circle;
             dx = x2 - x1; dy = y2 - y1;
             lcx = cx - x1; lcy = cy - y1;
             dLen2 = dx * dx + dy * dy;
             dp = (lcx * dx + lcy * dy) / dLen2;
             px = (if dLen2 > 0 then dx * dp else dx);
             py = (if dLen2 > 0 then dy * dp else dy);
             nearest = Arr [x1 + px, y1 + py];
             pLen2 = px * px + py * py
         in pointCircleCollide nearest circle radius
            \<and> pLen2 \<le> dLen2 \<and> px * dx + py * dy \<ge> 0))"

text \<open>\<^verbatim>\<open>_pointInTriangle\<close> over the real numbers, as the flood fill is studied here. The
  result is \<open>None\<close> when a division by zero is evaluated on the way.\<close>

definition pointInTriangle :: "Vector2 \<Rightarrow> Vector2 \<Rightarrow> Vector2 \<Rightarrow> Vector2 \<Rightarrow> bool option" where
  "pointInTriangle pt t0 t1 t2 =
     (let cx = fst pt; cy = snd pt;
          v0x = fst t2 - fst t0; v0y = snd t2 - snd t0;
          v1x = fst t1 - fst t0; v1y = snd t1 - snd t0;
          v2x = cx - fst t0; v2y = cy - snd t0;
          dot00 = v0x * v0x + v0y * v0y;
          dot01 = v0x * v1x + v0y * v1y;
          dot02 = v0x * v2x + v0y * v2y;
          dot11 = v1x * v1x + v1y * v1y;
          dot12 = v1x * v2x + v1y * v2y;
          b = dot00 * dot11 - dot01 * dot01
      in case (if b = 0 then Some 0 else js_div 1 b) of
           None \<Rightarrow> None
         | Some inv_b \<Rightarrow>
             (let u = (dot11 * dot02 - dot01 * dot12) * inv_b;
                  v = (dot00 * dot12 - dot01 * dot02) * inv_b
              in Some (u \<ge> 0 \<and> v \<ge> 0 \<and> u + v \<le> 1)))"

section \<open>The containment test in double precision\<close>

text \<open>
  A JavaScript number is a double: a finite value, an infinity with its sign, or NaN.
  The two zeros are one value here; they compare equal, and addition, subtraction,
  multiplication, comparison and a division by a divisor other than zero give the same
  answer for either, up to the sign of a zero result.
\<close>

datatype number = Finite real | Infinity bool | NaN

definition pow2 :: "int \<Rightarrow> real" where
  "pow2 k = (if 0 \<le> k then 2 ^ nat k else 1 / 2 ^ nat (- k))"

text \<open>The binade of a positive number, found by bisection between two exponents: the
  \<open>e\<close> from \<open>lo\<close> up to \<open>hi - 1\<close> with \<open>2 ^ e \<le> x < 2 ^ (e + 1)\<close>, or the nearest end
  of that range for an \<open>x\<close> outside it.\<close>

function binade :: "int \<Rightarrow> int \<Rightarrow> real \<Rightarrow> int" where
  "binade lo hi x =
     (if hi \<le> lo + 1 then lo
      else if pow2 ((lo + hi) div 2) \<le> x then binade ((lo + hi) div 2) hi x
      else binade lo ((lo + hi) div 2) x)"
  by pat_completeness auto

termination binade
  by (relation "measure (\<lambda>(lo, hi, x). nat (hi - lo))") auto

declare binade.simps [simp del]

text \<open>The exponents of the normal doubles run from -1022 to 1023; below them the
  subnormal doubles share the spacing of the least binade.\<close>

definition exponent :: "real \<Rightarrow> int" where
  "exponent x = binade (- 1022) 1024 x"

text \<open>Rounding to the nearest integer, a tie going to the even one.\<close>

definition nearest_even :: "real \<Rightarrow> int" where
  "nearest_even y =
     (let f = \<lfloor>y\<rfloor>; d = y - of_int f
      in if d < 1 / 2 then f else if 1 / 2 < d then f + 1 else if even f then f else f + 1)"

text \<open>
  The double nearest to a real number, ties to even: the number is rounded to a multiple
  of the spacing of its binade, 53 significant bits, and a result that reaches
  \<open>2 ^ 1024\<close> is an infinity.
\<close>

definition round_double :: "real \<Rightarrow> number" where
  "round_double x =
     (if x = 0 then Finite 0
      else
        (let q = exponent \<bar>x\<bar> - 52;
             y = of_int (nearest_even (\<bar>x\<bar> / pow2 q)) * pow2 q
         in if pow2 1024 \<le> y then Infinity (0 < x)
            else Finite (if 0 < x then y else - y)))"

fun negate :: "number \<Rightarrow> number" where
  "negate (Finite x) = Finite (- x)"
| "negate (Infinity s) = Infinity (\<not> s)"
| "negate NaN = NaN"

fun plus_double :: "number \<Rightarrow> number \<Rightarrow> number" where
  "plus_double (Finite x) (Finite y) = round_double (x + y)"
| "plus_double (Finite x) (Infinity t) = Infinity t"
| "plus_double (Infinity s) (Finite y) = Infinity s"
| "plus_double (Infinity s) (Infinity t) = (if s = t then Infinity s else NaN)"
| "plus_double NaN b = NaN"
| "plus_double (Finite x) NaN = NaN"
| "plus_double (Infinity s) NaN = NaN"

definition minus_double :: "number \<Rightarrow> number \<Rightarrow> number" where
  "minus_double a b = plus_double a (negate b)"

fun times_double :: "number \<Rightarrow> number \<Rightarrow> number" where
  "times_double (Finite x) (Finite y) = round_double (x * y)"
| "times_double (Finite x) (Infinity t) = (if x = 0 then NaN else Infinity (t = (0 < x)))"
| "times_double (Infinity s) (Finite y) = (if y = 0 then NaN else Infinity (s = (0 < y)))"
| "times_double (Infinity s) (Infinity t) = Infinity (s = t)"
| "times_double NaN b = NaN"
| "times_double (Finite x) NaN = NaN"
| "times_double (Infinity s) NaN = NaN"

text \<open>The quotient by a zero depends on the sign of that zero, which is not kept: the
  result is \<open>None\<close> when the divisor is zero.\<close>

fun divide_double :: "number \<Rightarrow> number \<Rightarrow> number option" where
  "divide_double (Finite x) (Finite y) = (if y = 0 then None else Some (round_double (x / y)))"
| "divide_double (Infinity s) (Finite y) = (if y = 0 then None else Some (Infinity (s = (0 < y))))"
| "divide_double NaN (Finite y) = (if y = 0 then None else Some NaN)"
| "divide_double (Finite x) (Infinity t) = Some (Finite 0)"
| "divide_double (Infinity s) (Infinity t) = Some NaN"
| "divide_double NaN (Infinity t) = Some NaN"
| "divide_double a NaN = Some NaN"

text \<open>The comparison \<^verbatim>\<open><=\<close>; it is false whenever an operand is NaN.\<close>

fun less_eq_double :: "number \<Rightarrow> number \<Rightarrow> bool" where
  "less_eq_double (Finite x) (Finite y) = (x \<le> y)"
| "less_eq_double (Finite x) (Infinity t) = t"
| "less_eq_double (Infinity s) (Finite y) = (\<not> s)"
| "less_eq_double (Infinity s) (Infinity t) = (\<not> s \<or> t)"
| "less_eq_double NaN b = False"
| "less_eq_double (Finite x) NaN = False"
| "less_eq_double (Infinity s) NaN = False"

type_synonym Vector2_double = "number \<times> number"

text \<open>
  \<^verbatim>\<open>_pointInTriangle\<close> as the engine computes it, every operation rounded to a double.
  The result is \<open>None\<close> when a division by zero is evaluated on the way.
\<close>

definition pointInTriangle_double ::
  "Vector2_double \<Rightarrow> Vector2_double \<Rightarrow> Vector2_double \<Rightarrow> Vector2_double \<Rightarrow> bool option" where
  "pointInTriangle_double pt t0 t1 t2 =
     (let cx = fst pt; cy = snd pt;
          v0x = minus_double (fst t2) (fst t0); v0y = minus_double (snd t2) (snd t0);
          v1x = minus_double (fst t1) (fst t0); v1y = minus_double (snd t1) (snd t0);
          v2x = minus_double cx (fst t0); v2y = minus_double cy (snd t0);
          dot00 = plus_double (times_double v0x v0x) (times_double v0y v0y);
          dot01 = plus_double (times_double v0x v1x) (times_double v0y v1y);
          dot02 = plus_double (times_double v0x v2x) (times_double v0y v2y);
          dot11 = plus_double (times_double v1x v1x) (times_double v1y v1y);
          dot12 = plus_double (times_double v1x v2x) (times_double v1y v2y);
          b = minus_double (times_double dot00 dot11) (times_double dot01 dot01)
      in case (if b = Finite 0 then Some (Finite 0) else divide_double (Finite 1) b) of
           None \<Rightarrow> None
         | Some inv_b \<Rightarrow>
             (let u = times_double
                        (minus_double (times_double dot11 dot02) (times_double dot01 dot12)) inv_b;
                  v = times_double
                        (minus_double (times_double dot00 dot12) (times_double dot01 dot02)) inv_b
              in Some (less_eq_double (Finite 0) u \<and> less_eq_double (Finite 0) v
                       \<and> less_eq_double (plus_double u v) (Finite 1))))"

section \<open>Geometry and the texture manager's state\<close>

record Face3 =
  face_a :: nat
  face_b :: nat
  face_c :: nat
  normal :: Vector3

record Geometry =
  vertices :: "Vector3 list"
  faces :: "Face3 list"

text \<open>A canvas: its size and its pixel data (opaque to the engine, which only copies it).\<close>

record Canvas =
  width :: nat
  height :: nat
  pixels :: "nat \<times> nat \<Rightarrow> nat"

text \<open>
  The image behind a face's viewing material: the white single-pixel canvas every face
  starts with, or a patch canvas of the given width and height onto which
  \<^verbatim>\<open>drawImage\<close> copied the rectangle of the source canvas that has the given top-left
  corner and the patch's own width and height.
\<close>

datatype Image = SinglePixelCanvas | PatchCanvas nat nat Canvas real real

text \<open>A viewing UV coordinate is the result of a division: \<open>None\<close> when the divisor
  (the patch width or height) is zero.\<close>

type_synonym ViewingUv = "real option \<times> real option"

record TextureManager =
  geometry :: Geometry
  camera_position :: Vector3
  viewingTextureUvs :: "(ViewingUv \<times> ViewingUv \<times> ViewingUv) list"
  viewingMaterial :: "Image list"
  drawingTextureUvs :: "(Vector2 \<times> Vector2 \<times> Vector2) list"
  drawingVertexUvs :: "Vector2 list"
  drawingCanvas :: Canvas
  recorder :: AffectedFacesRecorder
  isFloodFillEmpty :: "nat list"
  isFloodFill :: "nat list"
  nAdjacentFaces :: "nat list"
  AdjacentFacesList :: "nat list list"

section \<open>Construction: the face adjacency lists\<close>

definition corners :: "Face3 \<Rightarrow> nat list" where
  "corners f = [face_a f, face_b f, face_c f]"

text \<open>
  One round of the innermost loop body of the constructor: corner \<open>k\<close> of face \<open>fi\<close>
  against corner \<open>l\<close> of face \<open>fj\<close>. Reading a coordinate of a vertex that does not exist
  throws.
\<close>

definition coincide :: "Geometry \<Rightarrow> Face3 \<Rightarrow> Face3 \<Rightarrow> nat \<times> nat \<Rightarrow> error + bool" where
  "coincide g fi fj kl =
     (case (arr_get (vertices g) (int (corners fi ! fst kl)),
            arr_get (vertices g) (int (corners fj ! snd kl))) of
        (Some p, Some q) \<Rightarrow>
          Inr (fst p = fst q \<and> fst (snd p) = fst (snd q) \<and> snd (snd p) = snd (snd q)
               \<and> dot (normal fi) (normal fj) > 0)
      | _ \<Rightarrow> Inl TypeError)"

definition corner_pairs :: "(nat \<times> nat) list" where
  "corner_pairs = [(0, 0), (0, 1), (0, 2), (1, 0), (1, 1), (1, 2), (2, 0), (2, 1), (2, 2)]"

fun count_loop :: "Geometry \<Rightarrow> Face3 \<Rightarrow> Face3 \<Rightarrow> (nat \<times> nat) list \<Rightarrow> nat \<Rightarrow> error + nat" where
  "count_loop g fi fj [] count = Inr count"
| "count_loop g fi fj (kl # kls) count =
     (case coincide g fi fj kl of
        Inl e \<Rightarrow> Inl e
      | Inr hit \<Rightarrow> count_loop g fi fj kls (if hit then count + 1 else count))"

text \<open>The body of \<^verbatim>\<open>if (count == 2)\<close>: each face is appended to the other's list, and both
  8-bit counters are incremented.\<close>

definition link :: "nat \<Rightarrow> nat \<Rightarrow> nat list \<times> nat list list \<Rightarrow> nat list \<times> nat list list" where
  "link i j s =
     (case s of (n, adj) \<Rightarrow>
        let adj1 = adj[i := ta_set 32 (adj ! i) (int (n ! i)) (int j)];
            adj2 = adj1[j := ta_set 32 (adj1 ! j) (int (n ! j)) (int i)];
            n1 = ta_set 8 n (int i) (int (n ! i) + 1);
            n2 = ta_set 8 n1 (int j) (int (n1 ! j) + 1)
        in (n2, adj2))"

text \<open>The loop over \<open>j\<close> for a fixed \<open>i\<close>, and the loop over \<open>i\<close>. Both indices stay below
  the number of faces, which is the length of every array they index.\<close>

fun pair_loop ::
  "Geometry \<Rightarrow> nat \<Rightarrow> nat list \<Rightarrow> nat list \<times> nat list list \<Rightarrow> error + nat list \<times> nat list list"
where
  "pair_loop g i [] s = Inr s"
| "pair_loop g i (j # js) s =
     (case count_loop g (faces g ! i) (faces g ! j) corner_pairs 0 of
        Inl e \<Rightarrow> Inl e
      | Inr count \<Rightarrow> pair_loop g i js (if count = 2 then link i j s else s))"

fun face_loop ::
  "Geometry \<Rightarrow> nat list \<Rightarrow> nat list \<times> nat list list \<Rightarrow> error + nat list \<times> nat list list"
where
  "face_loop g [] s = Inr s"
| "face_loop g (i # is) s =
     (case pair_loop g i [i + 1 ..< length (faces g)] s of
        Inl e \<Rightarrow> Inl e
      | Inr s' \<Rightarrow> face_loop g is s')"

definition build_adjacency :: "Geometry \<Rightarrow> error + nat list \<times> nat list list" where
  "build_adjacency g =
     (let nFaces = length (faces g)
      in face_loop g [0 ..< nFaces - 1]
           (replicate nFaces 0, replicate nFaces (replicate nFaces 0)))"

text \<open>A canvas element starts 300 by 150 pixels, transparent black.\<close>

definition new_canvas :: Canvas where
  "new_canvas = \<lparr> width = 300, height = 150, pixels = (\<lambda>xy. 0) \<rparr>"

text \<open>The constructor, with \<^verbatim>\<open>initializeViewingTexture\<close> and
  \<^verbatim>\<open>initializeDrawingTexture\<close> inlined.\<close>

definition new_TextureManager :: "Geometry \<Rightarrow> Vector3 \<Rightarrow> error + TextureManager" where
  "new_TextureManager g cam =
     (let nFaces = length (faces g)
      in case build_adjacency g of
           Inl e \<Rightarrow> Inl e
         | Inr (n, adj) \<Rightarrow>
             Inr \<lparr> geometry = g,
                   camera_position = cam,
                   viewingTextureUvs =
                     replicate nFaces
                       ((Some 0.5, Some 0.5), (Some 0.5, Some 0.5), (Some 0.5, Some 0.5)),
                   viewingMaterial = replicate nFaces SinglePixelCanvas,
                   drawingTextureUvs = replicate nFaces ((0, 0), (0, 0), (0, 0)),
                   drawingVertexUvs = replicate (length (vertices g)) (0, 0),
                   drawingCanvas = new_canvas,
                   recorder = new_AffectedFacesRecorder nFaces,
                   isFloodFillEmpty = replicate nFaces 0,
                   isFloodFill = replicate nFaces 0,
                   nAdjacentFaces = n,
                   AdjacentFacesList = adj \<rparr>)"

section \<open>The flood fill\<close>

definition to_pixel :: "Canvas \<Rightarrow> Vector2 \<Rightarrow> Vector2" where
  "to_pixel cv uv = (fst uv * real (width cv), (1 - snd uv) * real (height cv))"

text \<open>The test \<^verbatim>\<open>inside || collide1 || collide2 || collide3\<close> of \<^verbatim>\<open>_add_recursive\<close> on the
  three drawing UVs of a face.\<close>

definition intersects :: "Canvas \<Rightarrow> Vector2 \<times> Vector2 \<times> Vector2 \<Rightarrow> Vector2 \<Rightarrow> real \<Rightarrow> bool" where
  "intersects cv uvs center radius =
     (case uvs of (uv1, uv2, uv3) \<Rightarrow>
        let v1 = to_pixel cv uv1; v2 = to_pixel cv uv2; v3 = to_pixel cv uv3;
            inside = pointInTriangle center v1 v2 v3;
            collide1 = lineCircleCollide v1 v2 center radius;
            collide2 = lineCircleCollide v2 v3 center radius;
            collide3 = lineCircleCollide v3 v1 center radius
        in inside = Some True \<or> collide1 \<or> collide2 \<or> collide3)"

text \<open>The face indices the loop of \<^verbatim>\<open>_add_recursive\<close> reads for a face: the first
  \<^verbatim>\<open>_nAdjacentFaces[faceIndex]\<close> entries of \<^verbatim>\<open>_AdjacentFacesList[faceIndex]\<close>. The loop
  does not run when the counter is \<^verbatim>\<open>undefined\<close>; indexing a missing list throws.\<close>

definition adjacent_entries :: "TextureManager \<Rightarrow> int \<Rightarrow> error + nat option list" where
  "adjacent_entries tm faceIndex =
     (case ta_get (nAdjacentFaces tm) faceIndex of
        None \<Rightarrow> Inr []
      | Some n \<Rightarrow>
          if n = 0 then Inr []
          else (case arr_get (AdjacentFacesList tm) faceIndex of
                  None \<Rightarrow> Inl TypeError
                | Some entries \<Rightarrow> Inr (map (\<lambda>i. ta_get entries (int i)) [0 ..< n])))"

text \<open>The front-facing filter on a neighbour: its normal against the normalised camera
  position. A missing face throws, and so does an entry read outside the list
  (\<open>None\<close> in \<open>visit_adjacent\<close>).\<close>

definition front_facing :: "TextureManager \<Rightarrow> nat \<Rightarrow> error + bool" where
  "front_facing tm newfaceIndex =
     (case arr_get (faces (geometry tm)) (int newfaceIndex) of
        None \<Rightarrow> Inl TypeError
      | Some f \<Rightarrow> Inr (dot (normal f) (normalize_vector (camera_position tm)) > 0))"

definition mark :: "int \<Rightarrow> TextureManager \<Rightarrow> TextureManager" where
  "mark faceIndex tm =
     tm \<lparr> isFloodFill := ta_set 8 (isFloodFill tm) faceIndex 1,
          recorder := add faceIndex (recorder tm) \<rparr>"

text \<open>
  \<^verbatim>\<open>_add_recursive\<close>. The first argument bounds the depth of the recursion; \<open>None\<close> means
  that the bound was reached. \<open>visit_adjacent\<close> is the loop over the neighbours.
\<close>

fun add_recursive ::
  "nat \<Rightarrow> int \<Rightarrow> Vector2 \<Rightarrow> real \<Rightarrow> TextureManager \<Rightarrow> (error + TextureManager) option"
and visit_adjacent ::
  "nat \<Rightarrow> nat option list \<Rightarrow> Vector2 \<Rightarrow> real \<Rightarrow> TextureManager \<Rightarrow> (error + TextureManager) option"
where
  "add_recursive 0 faceIndex center radius tm = None"
| "add_recursive (Suc d) faceIndex center radius tm =
     (if faceIndex \<ge> 0 \<and> \<not> truthy (ta_get (isFloodFill tm) faceIndex) then
        (case arr_get (drawingTextureUvs tm) faceIndex of
           None \<Rightarrow> Some (Inl TypeError)
         | Some uvs \<Rightarrow>
             if intersects (drawingCanvas tm) uvs center radius then
               (case adjacent_entries tm faceIndex of
                  Inl e \<Rightarrow> Some (Inl e)
                | Inr entries \<Rightarrow> visit_adjacent d entries center radius (mark faceIndex tm))
             else Some (Inr tm))
      else Some (Inr tm))"
| "visit_adjacent d [] center radius tm = Some (Inr tm)"
| "visit_adjacent d (None # rest) center radius tm = Some (Inl TypeError)"
| "visit_adjacent d (Some newfaceIndex # rest) center radius tm =
     (case front_facing tm newfaceIndex of
        Inl e \<Rightarrow> Some (Inl e)
      | Inr True \<Rightarrow>
          (case add_recursive d (int newfaceIndex) center radius tm of
             None \<Rightarrow> None
           | Some (Inl e) \<Rightarrow> Some (Inl e)
           | Some (Inr tm') \<Rightarrow> visit_adjacent d rest center radius tm')
      | Inr False \<Rightarrow> visit_adjacent d rest center radius tm)"

text \<open>
  \<^verbatim>\<open>onStrokePainted\<close>. The ray cast is the work of the scene library: its result is the
  argument \<open>intersections\<close>, the material indices of the faces hit, nearest first. Each
  level of the recursion marks a face that was not marked, so the depth stays within the
  number of faces plus one.
\<close>

definition onStrokePainted ::
  "int list \<Rightarrow> Vector2 \<Rightarrow> real \<Rightarrow> TextureManager \<Rightarrow> (error + TextureManager) option"
where
  "onStrokePainted intersections canvasPos radius tm =
     (case intersections of
        [] \<Rightarrow> Some (Inr tm)
      | faceIndex # _ \<Rightarrow>
          (case ta_copy (isFloodFill tm) (isFloodFillEmpty tm) of
             Inl e \<Rightarrow> Some (Inl e)
           | Inr cleared \<Rightarrow>
               add_recursive (Suc (length cleared)) faceIndex canvasPos radius
                 (tm \<lparr> isFloodFill := cleared \<rparr>)))"

section \<open>Reconciling the viewing texture\<close>

text \<open>The first \<^verbatim>\<open>forEach\<close> of \<^verbatim>\<open>prepareViewingTexture\<close> reads the drawing UVs of every
  recorded face; a face without drawing UVs throws.\<close>

fun collect_uvs ::
  "TextureManager \<Rightarrow> nat option list \<Rightarrow> error + (Vector2 \<times> Vector2 \<times> Vector2) list"
where
  "collect_uvs tm [] = Inr []"
| "collect_uvs tm (None # rest) = Inl TypeError"
| "collect_uvs tm (Some faceIndex # rest) =
     (case arr_get (drawingTextureUvs tm) (int faceIndex) of
        None \<Rightarrow> Inl TypeError
      | Some uvs \<Rightarrow>
          (case collect_uvs tm rest of
             Inl e \<Rightarrow> Inl e
           | Inr uvss \<Rightarrow> Inr (uvs # uvss)))"

definition us_of :: "(Vector2 \<times> Vector2 \<times> Vector2) list \<Rightarrow> real list" where
  "us_of uvss = concat (map (\<lambda>(p, q, r). [fst p, fst q, fst r]) uvss)"

definition vs_of :: "(Vector2 \<times> Vector2 \<times> Vector2) list \<Rightarrow> real list" where
  "vs_of uvss = concat (map (\<lambda>(p, q, r). [snd p, snd q, snd r]) uvss)"

text \<open>Assigning a number to the width or height of a canvas truncates it to an unsigned
  32-bit integer.\<close>

definition to_uint32 :: "real \<Rightarrow> nat" where
  "to_uint32 v = nat ((if v < 0 then \<lceil>v\<rceil> else \<lfloor>v\<rfloor>) mod 2 ^ 32)"

definition to_viewing :: "Canvas \<Rightarrow> real \<Rightarrow> real \<Rightarrow> nat \<Rightarrow> nat \<Rightarrow> Vector2 \<Rightarrow> ViewingUv" where
  "to_viewing cv uMin vMin patchWidth patchHeight drawingUV =
     (js_div ((fst drawingUV - uMin) * real (width cv)) (real patchWidth),
      js_div ((snd drawingUV - vMin) * real (height cv)) (real patchHeight))"

text \<open>The second \<^verbatim>\<open>forEach\<close>: the patch becomes the image of the face's material and the
  face's three viewing UVs are rewritten.\<close>

fun assign_patch ::
  "Image \<Rightarrow> (Vector2 \<Rightarrow> ViewingUv) \<Rightarrow> nat option list \<Rightarrow> TextureManager \<Rightarrow> error + TextureManager"
where
  "assign_patch patchCanvas conv [] tm = Inr tm"
| "assign_patch patchCanvas conv (None # rest) tm = Inl TypeError"
| "assign_patch patchCanvas conv (Some faceIndex # rest) tm =
     (case (arr_get (viewingMaterial tm) (int faceIndex),
            arr_get (drawingTextureUvs tm) (int faceIndex),
            arr_get (viewingTextureUvs tm) (int faceIndex)) of
        (Some faceMaterial, Some (d0, d1, d2), Some viewingUvs) \<Rightarrow>
          assign_patch patchCanvas conv rest
            (tm \<lparr> viewingMaterial := (viewingMaterial tm)[faceIndex := patchCanvas],
                  viewingTextureUvs :=
                    (viewingTextureUvs tm)[faceIndex := (conv d0, conv d1, conv d2)] \<rparr>)
      | _ \<Rightarrow> Inl TypeError)"

text \<open>
  \<^verbatim>\<open>prepareViewingTexture\<close>. The running maxima and minima of the first loop start at
  minus and plus infinity and the loop runs at least once, so they end as the maximum and
  the minimum of the coordinates read. The clip set on the drawing context does not
  touch the pixels read by \<^verbatim>\<open>drawImage\<close> and is left out.
\<close>

definition prepareViewingTexture :: "TextureManager \<Rightarrow> error + TextureManager" where
  "prepareViewingTexture tm =
     (if nAffectedFaces (recorder tm) > 0 then
        (case collect_uvs tm (forEach_args (recorder tm)) of
           Inl e \<Rightarrow> Inl e
         | Inr uvss \<Rightarrow>
             (let uMax = Max (set (us_of uvss)); uMin = Min (set (us_of uvss));
                  vMax = Max (set (vs_of uvss)); vMin = Min (set (vs_of uvss));
                  cv = drawingCanvas tm;
                  xMax = uMax * real (width cv); xMin = uMin * real (width cv);
                  yMax = (1 - vMin) * real (height cv); yMin = (1 - vMax) * real (height cv);
                  patchWidth = to_uint32 (xMax - xMin);
                  patchHeight = to_uint32 (yMax - yMin);
                  patchCanvas = PatchCanvas patchWidth patchHeight cv xMin yMin
              in case assign_patch patchCanvas (to_viewing cv uMin vMin patchWidth patchHeight)
                        (forEach_args (recorder tm)) tm of
                   Inl e \<Rightarrow> Inl e
                 | Inr tm' \<Rightarrow>
                     (case reset (recorder tm') of
                        Inl e \<Rightarrow> Inl e
                      | Inr r \<Rightarrow> Inr (tm' \<lparr> recorder := r \<rparr>))))
      else Inr tm)"

section \<open>Preparing the drawing texture\<close>

text \<open>
  \<^verbatim>\<open>prepareDrawingTexture\<close>. The renderer and the camera belong to the scene library:
  \<open>rendered\<close> is the renderer's canvas after rendering, \<open>project\<close> the camera's projection
  of a point.
\<close>

fun face_uvs :: "Vector2 list \<Rightarrow> Face3 list \<Rightarrow> error + (Vector2 \<times> Vector2 \<times> Vector2) list" where
  "face_uvs vuvs [] = Inr []"
| "face_uvs vuvs (f # fs) =
     (case (arr_get vuvs (int (face_a f)), arr_get vuvs (int (face_b f)),
            arr_get vuvs (int (face_c f))) of
        (Some ua, Some ub, Some uc) \<Rightarrow>
          (case face_uvs vuvs fs of
             Inl e \<Rightarrow> Inl e
           | Inr rest \<Rightarrow> Inr ((ua, ub, uc) # rest))
      | _ \<Rightarrow> Inl TypeError)"

definition prepareDrawingTexture ::
  "Canvas \<Rightarrow> (Vector3 \<Rightarrow> Vector3) \<Rightarrow> TextureManager \<Rightarrow> error + TextureManager"
where
  "prepareDrawingTexture rendered project tm =
     (let g = geometry tm;
          projected = map (\<lambda>p. ((fst (project p) + 1) / 2, (fst (snd (project p)) + 1) / 2))
                        (vertices g)
      in if length (drawingVertexUvs tm) < length (vertices g)
            \<or> length (drawingTextureUvs tm) < length (faces g) then Inl TypeError
         else
           (let vuvs = projected @ drop (length projected) (drawingVertexUvs tm)
            in case face_uvs vuvs (faces g) of
                 Inl e \<Rightarrow> Inl e
               | Inr fuvs \<Rightarrow>
                   Inr (tm \<lparr> drawingCanvas := rendered,
                             drawingVertexUvs := vuvs,
                             drawingTextureUvs :=
                               fuvs @ drop (length fuvs) (drawingTextureUvs tm) \<rparr>)))"

section \<open>Controls: switching textures and the stroke\<close>

datatype ControlsState = Idle | Draw | View

datatype Material = ViewingMaterial | DrawingMaterial

record Controls =
  state :: ControlsState
  usingViewingTexture :: bool
  textureManager :: TextureManager
  mesh_material :: Material

text \<open>What an event brings from outside the engine: the renderer's canvas and the
  camera's projection at that moment, the ray cast at the pointer position, the position
  of the camera (an object the texture manager shares with the camera controls), and the
  brush (its radius and what it paints on the drawing canvas).\<close>

record Outside =
  rendered :: Canvas
  project :: "Vector3 \<Rightarrow> Vector3"
  castRay :: "int list"
  camera_at :: Vector3
  brush_radius :: real
  brush_paint :: "Canvas \<Rightarrow> Canvas"

definition useViewingTexture :: "Controls \<Rightarrow> error + Controls" where
  "useViewingTexture c =
     (if usingViewingTexture c then Inr c
      else case prepareViewingTexture (textureManager c) of
             Inl e \<Rightarrow> Inl e
           | Inr tm \<Rightarrow>
               Inr (c \<lparr> textureManager := tm, mesh_material := ViewingMaterial,
                        usingViewingTexture := True \<rparr>))"

definition useDrawingTexture :: "Outside \<Rightarrow> Controls \<Rightarrow> error + Controls" where
  "useDrawingTexture out c =
     (if \<not> usingViewingTexture c then Inr c
      else case prepareDrawingTexture (rendered out) (project out) (textureManager c) of
             Inl e \<Rightarrow> Inl e
           | Inr tm \<Rightarrow>
               Inr (c \<lparr> textureManager := tm, mesh_material := DrawingMaterial,
                        usingViewingTexture := False \<rparr>))"

text \<open>The brush paints on the drawing canvas, then the flood fill runs at the pointer
  position with the brush's radius.\<close>

definition paint_sample :: "Outside \<Rightarrow> Vector2 \<Rightarrow> Controls \<Rightarrow> (error + Controls) option" where
  "paint_sample out pos c =
     (let tm = textureManager c;
          tm1 = tm \<lparr> camera_position := camera_at out,
                     drawingCanvas := brush_paint out (drawingCanvas tm) \<rparr>
      in case onStrokePainted (castRay out) pos (brush_radius out) tm1 of
           None \<Rightarrow> None
         | Some (Inl e) \<Rightarrow> Some (Inl e)
         | Some (Inr tm2) \<Rightarrow> Some (Inr (c \<lparr> textureManager := tm2 \<rparr>)))"

definition mousedown :: "Outside \<Rightarrow> bool \<Rightarrow> Vector2 \<Rightarrow> Controls \<Rightarrow> (error + Controls) option" where
  "mousedown out shiftKey pos c =
     (if state c \<noteq> Idle then Some (Inr c)
      else if shiftKey then Some (useViewingTexture (c \<lparr> state := View \<rparr>))
      else case useDrawingTexture out (c \<lparr> state := Draw \<rparr>) of
             Inl e \<Rightarrow> Some (Inl e)
           | Inr c' \<Rightarrow> paint_sample out pos c')"

definition mousemove :: "Outside \<Rightarrow> Vector2 \<Rightarrow> Controls \<Rightarrow> (error + Controls) option" where
  "mousemove out pos c =
     (case state c of
        Idle \<Rightarrow> Some (Inr c)
      | View \<Rightarrow> Some (Inr c)
      | Draw \<Rightarrow> paint_sample out pos c)"

definition mouseup :: "Controls \<Rightarrow> Controls" where
  "mouseup c = c \<lparr> state := Idle \<rparr>"

section \<open>Notions used to state the properties\<close>

text \<open>The faces marked in the flood fill's bitmap.\<close>

definition visited :: "TextureManager \<Rightarrow> int set" where
  "visited tm = {f. truthy (ta_get (isFloodFill tm) f)}"

text \<open>The face has drawing UVs and its projected triangle passes the test of the flood fill.\<close>

definition face_intersects :: "TextureManager \<Rightarrow> Vector2 \<Rightarrow> real \<Rightarrow> int \<Rightarrow> bool" where
  "face_intersects tm center radius f =
     (case arr_get (drawingTextureUvs tm) f of
        None \<Rightarrow> False
      | Some uvs \<Rightarrow> intersects (drawingCanvas tm) uvs center radius)"

text \<open>The flood fill may go from face \<open>f\<close> to \<open>nb\<close>: \<open>nb\<close> is among the entries read for \<open>f\<close> and passes the front-facing filter.\<close>

definition fill_step :: "TextureManager \<Rightarrow> int \<Rightarrow> nat \<Rightarrow> bool" where
  "fill_step tm f nb =
     (case adjacent_entries tm f of
        Inl e \<Rightarrow> False
      | Inr entries \<Rightarrow> Some nb \<in> set entries \<and> front_facing tm nb = Inr True)"

text \<open>A chain of faces from \<open>a\<close>, all in \<open>V\<close> and all hit, each step allowed.\<close>

inductive chain :: "(int \<Rightarrow> bool) \<Rightarrow> (int \<Rightarrow> nat \<Rightarrow> bool) \<Rightarrow> int set \<Rightarrow> int \<Rightarrow> int \<Rightarrow> bool"
  for hit :: "int \<Rightarrow> bool" and step :: "int \<Rightarrow> nat \<Rightarrow> bool" and V :: "int set" and a :: int
where
  chain_start: "a \<in> V \<Longrightarrow> hit a \<Longrightarrow> chain hit step V a a"
| chain_step: "chain hit step V a x \<Longrightarrow> step x nb \<Longrightarrow> int nb \<in> V \<Longrightarrow> hit (int nb)
     \<Longrightarrow> chain hit step V a (int nb)"

definition connected_from :: "TextureManager \<Rightarrow> Vector2 \<Rightarrow> real \<Rightarrow> int set \<Rightarrow> int \<Rightarrow> int \<Rightarrow> bool" where
  "connected_from tm center radius V a x =
     chain (face_intersects tm center radius) (fill_step tm) V a x"

text \<open>The second state differs from the first in the bitmap and the recorder at most.\<close>

definition frame :: "TextureManager \<Rightarrow> TextureManager \<Rightarrow> bool" where
  "frame tm tm' = (\<exists>b r. tm' = tm \<lparr> isFloodFill := b, recorder := r \<rparr>)"

text \<open>Every face with drawing UVs has a place in the bitmap.\<close>

definition covered :: "TextureManager \<Rightarrow> bool" where
  "covered tm = (length (drawingTextureUvs tm) \<le> length (isFloodFill tm))"

text \<open>The number of cleared places of the bitmap.\<close>

definition unvisited :: "TextureManager \<Rightarrow> nat" where
  "unvisited tm = length (filter (\<lambda>v. v = 0) (isFloodFill tm))"

definition members :: "AffectedFacesRecorder \<Rightarrow> nat option set" where
  "members r = set (forEach_args r)"

definition recorder_ok :: "AffectedFacesRecorder \<Rightarrow> bool" where
  "recorder_ok r =
     (length (affectedFaces r) = length (isFaceAffected r)
      \<and> length (isFaceAffected r) \<le> 2 ^ 32
      \<and> distinct (take (nAffectedFaces r) (affectedFaces r))
      \<and> set (take (nAffectedFaces r) (affectedFaces r)) =
          {f. f < length (isFaceAffected r) \<and> isFaceAffected r ! f \<noteq> 0}
      \<and> nAffectedFaces r \<le> length (affectedFaces r)
      \<and> isFaceAffectedEmpty r = replicate (length (isFaceAffected r)) 0)"

definition fill_inv :: "TextureManager \<Rightarrow> bool" where
  "fill_inv tm =
     (covered tm \<and> recorder_ok (recorder tm)
      \<and> length (drawingTextureUvs tm) \<le> length (isFaceAffected (recorder tm)))"

definition stroke_ready :: "TextureManager \<Rightarrow> bool" where
  "stroke_ready tm =
     (isFloodFillEmpty tm = replicate (length (isFloodFill tm)) 0 \<and> fill_inv tm)"

definition grown :: "TextureManager \<Rightarrow> TextureManager \<Rightarrow> bool" where
  "grown s t =
     (fill_inv s \<longrightarrow>
        fill_inv t \<and> visited s \<subseteq> visited t
        \<and> members (recorder t) = members (recorder s) \<union> (\<lambda>f. Some (nat f)) ` (visited t - visited s))"

text \<open>A unit square split into two triangles along its diagonal, both facing up the
  \<open>z\<close> axis.\<close>

definition square :: Geometry where
  "square =
     \<lparr> vertices = [(0, 0, 0), (1, 0, 0), (1, 1, 0), (0, 1, 0)],
       faces = [\<lparr> face_a = 0, face_b = 1, face_c = 2, normal = (0, 0, 1) \<rparr>,
                \<lparr> face_a = 0, face_b = 2, face_c = 3, normal = (0, 0, 1) \<rparr>] \<rparr>"

definition blank100 :: Canvas where
  "blank100 = \<lparr> width = 100, height = 100, pixels = (\<lambda>xy. 0) \<rparr>"

text \<open>The texture manager of the square as constructed, and after the drawing texture
  was prepared on a 100 by 100 canvas with the identity as projection.\<close>

definition square_tm :: "Vector3 \<Rightarrow> TextureManager" where
  "square_tm cam =
     \<lparr> geometry = square,
       camera_position = cam,
       viewingTextureUvs =
         [((Some 0.5, Some 0.5), (Some 0.5, Some 0.5), (Some 0.5, Some 0.5)),
          ((Some 0.5, Some 0.5), (Some 0.5, Some 0.5), (Some 0.5, Some 0.5))],
       viewingMaterial = [SinglePixelCanvas, SinglePixelCanvas],
       drawingTextureUvs = [((0, 0), (0, 0), (0, 0)), ((0, 0), (0, 0), (0, 0))],
       drawingVertexUvs = [(0, 0), (0, 0), (0, 0), (0, 0)],
       drawingCanvas = new_canvas,
       recorder = \<lparr> nAffectedFaces = 0, affectedFaces = [0, 0], isFaceAffected = [0, 0],
                    isFaceAffectedEmpty = [0, 0] \<rparr>,
       isFloodFillEmpty = [0, 0],
       isFloodFill = [0, 0],
       nAdjacentFaces = [1, 1],
       AdjacentFacesList = [[1, 0], [0, 0]] \<rparr>"

definition square_drawn :: "Vector3 \<Rightarrow> TextureManager" where
  "square_drawn cam =
     (square_tm cam)
       \<lparr> drawingCanvas := blank100,
         drawingVertexUvs := [(1/2, 1/2), (1, 1/2), (1, 1), (1/2, 1)],
         drawingTextureUvs := [((1/2, 1/2), (1, 1/2), (1, 1)), ((1/2, 1/2), (1, 1), (1/2, 1))] \<rparr>"

definition contains_center :: "TextureManager \<Rightarrow> Vector2 \<Rightarrow> int \<Rightarrow> bool" where
  "contains_center tm center f =
     (case arr_get (drawingTextureUvs tm) f of
        None \<Rightarrow> False
      | Some (uv1, uv2, uv3) \<Rightarrow>
          pointInTriangle center (to_pixel (drawingCanvas tm) uv1)
            (to_pixel (drawingCanvas tm) uv2) (to_pixel (drawingCanvas tm) uv3) = Some True)"

text \<open>The square after a stroke sample of radius 100 at the pixel (90, 40), which lies in
  face 0: both faces are marked and recorded.\<close>

definition square_filled :: TextureManager where
  "square_filled =
     (square_drawn (0, 0, 1))
       \<lparr> isFloodFill := [1, 1],
         recorder := \<lparr> nAffectedFaces = 2, affectedFaces = [0, 1], isFaceAffected = [1, 1],
                       isFaceAffectedEmpty = [0, 0] \<rparr> \<rparr>"

text \<open>The square seen from behind (the camera on the negative \<open>z\<close> axis, both normals
  pointing away from it), after a stroke sample of radius 100 at the pixel (90, 40): only
  the seed, face 0, is marked and recorded.\<close>

definition square_behind :: TextureManager where
  "square_behind =
     (square_drawn (0, 0, - 1))
       \<lparr> isFloodFill := [1, 0],
         recorder := \<lparr> nAffectedFaces = 1, affectedFaces = [0, 0], isFaceAffected = [1, 0],
                       isFaceAffectedEmpty = [0, 0] \<rparr> \<rparr>"

text \<open>The square after a stroke sample of radius 0 at the pixel (90, 40): face 0, which
  contains that pixel, is marked and recorded.\<close>

definition square_dotted :: TextureManager where
  "square_dotted =
     (square_drawn (0, 0, 1))
       \<lparr> isFloodFill := [1, 0],
         recorder := \<lparr> nAffectedFaces = 1, affectedFaces = [0, 0], isFaceAffected = [1, 0],
                       isFaceAffectedEmpty = [0, 0] \<rparr> \<rparr>"

text \<open>The mouse-move samples of one stroke, in the order of their arrival.\<close>

fun stroke_moves :: "(Outside \<times> Vector2) list \<Rightarrow> Controls \<Rightarrow> (error + Controls) option" where
  "stroke_moves [] c = Some (Inr c)"
| "stroke_moves (ev # evs) c =
     (case mousemove (fst ev) (snd ev) c of
        None \<Rightarrow> None
      | Some (Inl e) \<Rightarrow> Some (Inl e)
      | Some (Inr c') \<Rightarrow> stroke_moves evs c')"

text \<open>The controls of the square as constructed; what a pointer event brings when the
  ray cast returns the given faces, with a brush of radius 1 that leaves the canvas as it
  is; the controls after the pointer went down on the pixel (90, 40) of face 0, and after
  it then moved to the pixel (60, 10) of face 1.\<close>

definition square_controls :: Controls where
  "square_controls =
     \<lparr> state = Idle, usingViewingTexture = True, textureManager = square_tm (0, 0, 1),
       mesh_material = ViewingMaterial \<rparr>"

definition pointer_at :: "int list \<Rightarrow> Outside" where
  "pointer_at hits =
     \<lparr> rendered = blank100, project = (\<lambda>p. p), castRay = hits, camera_at = (0, 0, 1),
       brush_radius = 1, brush_paint = (\<lambda>cv. cv) \<rparr>"

definition square_pressed :: Controls where
  "square_pressed =
     \<lparr> state = Draw, usingViewingTexture = False, textureManager = square_dotted,
       mesh_material = DrawingMaterial \<rparr>"

definition square_moved :: Controls where
  "square_moved =
     square_pressed
       \<lparr> textureManager := square_dotted
           \<lparr> isFloodFill := [0, 1],
             recorder := \<lparr> nAffectedFaces = 2, affectedFaces = [0, 1], isFaceAffected = [1, 1],
                           isFaceAffectedEmpty = [0, 0] \<rparr> \<rparr> \<rparr>"

text \<open>The viewing UVs and the viewing image of a face.\<close>

definition viewing :: "TextureManager \<Rightarrow> nat \<Rightarrow> (ViewingUv \<times> ViewingUv \<times> ViewingUv) option \<times> Image option" where
  "viewing tm f = (arr_get (viewingTextureUvs tm) (int f), arr_get (viewingMaterial tm) (int f))"

text \<open>The size of an image, and the corners of the rectangle of the drawing surface
  that a patch was copied from.\<close>

fun image_size :: "Image \<Rightarrow> nat \<times> nat" where
  "image_size SinglePixelCanvas = (1, 1)"
| "image_size (PatchCanvas w h cv sx sy) = (w, h)"

fun source_rect :: "Image \<Rightarrow> (Vector2 \<times> Vector2) option" where
  "source_rect SinglePixelCanvas = None"
| "source_rect (PatchCanvas w h cv sx sy) = Some ((sx, sy), (sx + real w, sy + real h))"

text \<open>The patch that \<^verbatim>\<open>prepareViewingTexture\<close> cuts out of the drawing canvas for the
  collected drawing UVs, and its rewriting of a drawing UV into a viewing UV.\<close>

definition extract_patch :: "Canvas \<Rightarrow> (Vector2 \<times> Vector2 \<times> Vector2) list \<Rightarrow> Image" where
  "extract_patch cv uvss =
     (let uMax = Max (set (us_of uvss)); uMin = Min (set (us_of uvss));
          vMax = Max (set (vs_of uvss)); vMin = Min (set (vs_of uvss));
          xMax = uMax * real (width cv); xMin = uMin * real (width cv);
          yMax = (1 - vMin) * real (height cv); yMin = (1 - vMax) * real (height cv)
      in PatchCanvas (to_uint32 (xMax - xMin)) (to_uint32 (yMax - yMin)) cv xMin yMin)"

definition patch_uv :: "Canvas \<Rightarrow> (Vector2 \<times> Vector2 \<times> Vector2) list \<Rightarrow> Vector2 \<Rightarrow> ViewingUv" where
  "patch_uv cv uvss =
     (let uMax = Max (set (us_of uvss)); uMin = Min (set (us_of uvss));
          vMax = Max (set (vs_of uvss)); vMin = Min (set (vs_of uvss));
          xMax = uMax * real (width cv); xMin = uMin * real (width cv);
          yMax = (1 - vMin) * real (height cv); yMin = (1 - vMax) * real (height cv)
      in to_viewing cv uMin vMin (to_uint32 (xMax - xMin)) (to_uint32 (yMax - yMin)))"

text \<open>A single triangle whose corners project to the UVs (0.2, 0.3), (0.4, 0.3) and
  (0.4, 0.5): its texture manager after the drawing texture was prepared on a 100 by 100
  canvas and a stroke sample at the pixel (35, 65) recorded the face, and after
  reconciliation.\<close>

definition wedge :: Geometry where
  "wedge =
     \<lparr> vertices = [(- 0.6, - 0.4, 0), (- 0.2, - 0.4, 0), (- 0.2, 0, 0)],
       faces = [\<lparr> face_a = 0, face_b = 1, face_c = 2, normal = (0, 0, 1) \<rparr>] \<rparr>"

definition wedge_tm :: TextureManager where
  "wedge_tm =
     \<lparr> geometry = wedge,
       camera_position = (0, 0, 1),
       viewingTextureUvs = [((Some 0.5, Some 0.5), (Some 0.5, Some 0.5), (Some 0.5, Some 0.5))],
       viewingMaterial = [SinglePixelCanvas],
       drawingTextureUvs = [((0, 0), (0, 0), (0, 0))],
       drawingVertexUvs = [(0, 0), (0, 0), (0, 0)],
       drawingCanvas = new_canvas,
       recorder = \<lparr> nAffectedFaces = 0, affectedFaces = [0], isFaceAffected = [0],
                    isFaceAffectedEmpty = [0] \<rparr>,
       isFloodFillEmpty = [0],
       isFloodFill = [0],
       nAdjacentFaces = [0],
       AdjacentFacesList = [[0]] \<rparr>"

definition wedge_painted :: TextureManager where
  "wedge_painted =
     wedge_tm
       \<lparr> drawingCanvas := blank100,
         drawingVertexUvs := [(0.2, 0.3), (0.4, 0.3), (0.4, 0.5)],
         drawingTextureUvs := [((0.2, 0.3), (0.4, 0.3), (0.4, 0.5))],
         isFloodFill := [1],
         recorder := \<lparr> nAffectedFaces = 1, affectedFaces = [0], isFaceAffected = [1],
                       isFaceAffectedEmpty = [0] \<rparr> \<rparr>"

definition wedge_reconciled :: TextureManager where
  "wedge_reconciled =
     wedge_painted
       \<lparr> viewingMaterial := [PatchCanvas 20 20 blank100 20 50],
         viewingTextureUvs := [((Some 0, Some 0), (Some 1, Some 0), (Some 1, Some 1))],
         recorder := \<lparr> nAffectedFaces = 0, affectedFaces = [0], isFaceAffected = [0],
                       isFaceAffectedEmpty = [0] \<rparr> \<rparr>"

text \<open>The operations of the texture manager, runs of them, and whether a face is held by
  the recorder at some reconciliation of a run.\<close>

datatype tm_op =
    PrepareViewing
  | PrepareDrawing Canvas "Vector3 \<Rightarrow> Vector3"
  | StrokePainted "int list" Vector2 real
  | CameraMoved Vector3

fun run_op :: "tm_op \<Rightarrow> TextureManager \<Rightarrow> (error + TextureManager) option" where
  "run_op PrepareViewing tm = Some (prepareViewingTexture tm)"
| "run_op (PrepareDrawing rd pr) tm = Some (prepareDrawingTexture rd pr tm)"
| "run_op (StrokePainted hits pos radius) tm = onStrokePainted hits pos radius tm"
| "run_op (CameraMoved p) tm = Some (Inr (tm \<lparr> camera_position := p \<rparr>))"

fun run_ops :: "tm_op list \<Rightarrow> TextureManager \<Rightarrow> (error + TextureManager) option" where
  "run_ops [] tm = Some (Inr tm)"
| "run_ops (x # xs) tm =
     (case run_op x tm of
        None \<Rightarrow> None
      | Some (Inl e) \<Rightarrow> Some (Inl e)
      | Some (Inr tm') \<Rightarrow> run_ops xs tm')"

fun reconciles :: "nat \<Rightarrow> tm_op \<Rightarrow> TextureManager \<Rightarrow> bool" where
  "reconciles f PrepareViewing tm = (Some f \<in> set (forEach_args (recorder tm)))"
| "reconciles f _ tm = False"

fun reconciled :: "nat \<Rightarrow> tm_op list \<Rightarrow> TextureManager \<Rightarrow> bool" where
  "reconciled f [] tm = False"
| "reconciled f (x # xs) tm =
     (reconciles f x tm
      \<or> (case run_op x tm of Some (Inr tm') \<Rightarrow> reconciled f xs tm' | _ \<Rightarrow> False))"

text \<open>The square after reconciling the stroke that recorded face 0.\<close>

definition square_reconciled :: TextureManager where
  "square_reconciled =
     square_dotted
       \<lparr> viewingMaterial := [PatchCanvas 50 50 blank100 50 0, SinglePixelCanvas],
         viewingTextureUvs :=
           [((Some 0, Some 0), (Some 1, Some 0), (Some 1, Some 1)),
            ((Some 0.5, Some 0.5), (Some 0.5, Some 0.5), (Some 0.5, Some 0.5))],
         recorder := \<lparr> nAffectedFaces = 0, affectedFaces = [0, 0], isFaceAffected = [0, 0],
                       isFaceAffectedEmpty = [0, 0] \<rparr> \<rparr>"

text \<open>The controls of the square after the stroke of \<open>square_pressed\<close> ended and the
  viewing texture was switched back in.\<close>

definition square_viewed :: Controls where
  "square_viewed =
     \<lparr> state = Idle, usingViewingTexture = True, textureManager = square_reconciled,
       mesh_material = ViewingMaterial \<rparr>"

text \<open>Every corner of every face is an index into the vertex list.\<close>

definition well_indexed :: "Geometry \<Rightarrow> bool" where
  "well_indexed g =
     (\<forall>f\<in>set (faces g). \<forall>v\<in>set (corners f). v < length (vertices g))"

definition corner_at :: "Geometry \<Rightarrow> nat \<Rightarrow> nat \<Rightarrow> Vector3" where
  "corner_at g i k = vertices g ! (corners (faces g ! i) ! k)"

text \<open>The number of pairs of a corner of face \<open>i\<close> and a corner of face \<open>j\<close> that lie at
  the same position, counted when the normals of the two faces have a positive dot
  product.\<close>

definition coincidences :: "Geometry \<Rightarrow> nat \<Rightarrow> nat \<Rightarrow> nat" where
  "coincidences g i j =
     length (filter (\<lambda>kl. corner_at g i (fst kl) = corner_at g j (snd kl)
                          \<and> dot (normal (faces g ! i)) (normal (faces g ! j)) > 0)
               corner_pairs)"

text \<open>The number of corners of face \<open>i\<close> that lie at the position of some corner of
  face \<open>j\<close>.\<close>

definition shared_corners :: "Geometry \<Rightarrow> nat \<Rightarrow> nat \<Rightarrow> nat" where
  "shared_corners g i j =
     length (filter (\<lambda>k. list_ex (\<lambda>l. corner_at g i k = corner_at g j l) [0, 1, 2]) [0, 1, 2])"

text \<open>The face indices the flood fill reads for a face of the constructed state.\<close>

definition neighbours :: "TextureManager \<Rightarrow> nat \<Rightarrow> nat option list" where
  "neighbours tm i = (case adjacent_entries tm (int i) of Inl e \<Rightarrow> [] | Inr es \<Rightarrow> es)"

text \<open>The lists under construction: the first \<open>n ! x\<close> entries of \<open>adj ! x\<close>.\<close>

definition listed :: "nat list \<times> nat list list \<Rightarrow> nat \<Rightarrow> nat list" where
  "listed s x = take (fst s ! x) (snd s ! x)"

definition shaped :: "nat \<Rightarrow> nat list \<times> nat list list \<Rightarrow> bool" where
  "shaped F s =
     (length (fst s) = F \<and> length (snd s) = F
      \<and> (\<forall>x<F. length (snd s ! x) = F \<and> fst s ! x \<le> F))"

definition linked :: "Geometry \<Rightarrow> nat \<Rightarrow> (nat \<times> nat) set \<Rightarrow> nat list \<times> nat list list \<Rightarrow> bool" where
  "linked g F P s =
     (shaped F s
      \<and> (\<forall>x<F. distinct (listed s x)
             \<and> set (listed s x) =
                 {y. y < F \<and> ((x, y) \<in> P \<or> (y, x) \<in> P) \<and> coincidences g x y = 2}))"

text \<open>A triangle and a sliver that names the triangle's first corner twice: one corner
  of the triangle coincides with corners of the sliver, yet two pairs of corners
  coincide.\<close>

definition pinched :: Geometry where
  "pinched =
     \<lparr> vertices = [(0, 0, 0), (1, 0, 0), (0, 1, 0), (1, 1, 0)],
       faces = [\<lparr> face_a = 0, face_b = 1, face_c = 2, normal = (0, 0, 1) \<rparr>,
                \<lparr> face_a = 0, face_b = 0, face_c = 3, normal = (0, 0, 1) \<rparr>] \<rparr>"

text \<open>The neighbour counters are 8 bits wide and the face indices stored in the lists
  32 bits: no face has more than 255 neighbours, and the faces number at most \<open>2 ^ 32\<close>.\<close>

definition bounded_degree :: "Geometry \<Rightarrow> bool" where
  "bounded_degree g =
     (length (faces g) \<le> 2 ^ 32
      \<and> (\<forall>i<length (faces g).
            card {j. j < length (faces g) \<and> j \<noteq> i \<and> coincidences g i j = 2} \<le> 255))"

text \<open>
  The state of a texture manager is sound when its geometry has valid corner indices,
  every per-face array has one place per face, the vertex UVs one place per vertex, and
  the adjacency entries read for a face are faces. The constructor establishes this and
  every operation keeps it.
\<close>

definition sound :: "TextureManager \<Rightarrow> bool" where
  "sound tm =
     (well_indexed (geometry tm) \<and> stroke_ready tm
      \<and> length (drawingTextureUvs tm) = length (faces (geometry tm))
      \<and> length (isFloodFill tm) = length (faces (geometry tm))
      \<and> length (isFaceAffected (recorder tm)) = length (faces (geometry tm))
      \<and> length (viewingTextureUvs tm) = length (faces (geometry tm))
      \<and> length (viewingMaterial tm) = length (faces (geometry tm))
      \<and> length (drawingVertexUvs tm) = length (vertices (geometry tm))
      \<and> shaped (length (faces (geometry tm))) (nAdjacentFaces tm, AdjacentFacesList tm)
      \<and> (\<forall>x<length (faces (geometry tm)).
            \<forall>y\<in>set (listed (nAdjacentFaces tm, AdjacentFacesList tm) x).
              y < length (faces (geometry tm))))"

text \<open>The part of soundness that the flood fill relies on and does not change.\<close>

definition scene_ok :: "TextureManager \<Rightarrow> bool" where
  "scene_ok tm =
     (length (drawingTextureUvs tm) = length (faces (geometry tm))
      \<and> shaped (length (faces (geometry tm))) (nAdjacentFaces tm, AdjacentFacesList tm)
      \<and> (\<forall>x<length (faces (geometry tm)).
            \<forall>y\<in>set (listed (nAdjacentFaces tm, AdjacentFacesList tm) x).
              y < length (faces (geometry tm))))"

text \<open>An operation is well seeded for a mesh of \<open>F\<close> faces when the first face of a stroke's
  ray cast, if any, is below \<open>F\<close>.\<close>

fun well_seeded :: "nat \<Rightarrow> tm_op \<Rightarrow> bool" where
  "well_seeded F (StrokePainted (seed # others) pos radius) = (seed < int F)"
| "well_seeded F _ = True"

fun is_finite :: "number \<Rightarrow> bool" where
  "is_finite (Finite x) = True"
| "is_finite (Infinity s) = False"
| "is_finite NaN = False"

text \<open>The denominator \<^verbatim>\<open>_pointInTriangle\<close> computes (its variable \<^verbatim>\<open>b\<close>), and the two
  numerators it multiplies by the inverse of \<^verbatim>\<open>b\<close> to get \<^verbatim>\<open>u\<close> and \<^verbatim>\<open>v\<close>.\<close>

definition computed_denominator ::
  "Vector2_double \<Rightarrow> Vector2_double \<Rightarrow> Vector2_double \<Rightarrow> number" where
  "computed_denominator t0 t1 t2 =
     (let v0x = minus_double (fst t2) (fst t0); v0y = minus_double (snd t2) (snd t0);
          v1x = minus_double (fst t1) (fst t0); v1y = minus_double (snd t1) (snd t0);
          dot00 = plus_double (times_double v0x v0x) (times_double v0y v0y);
          dot01 = plus_double (times_double v0x v1x) (times_double v0y v1y);
          dot11 = plus_double (times_double v1x v1x) (times_double v1y v1y)
      in minus_double (times_double dot00 dot11) (times_double dot01 dot01))"

definition computed_numerators ::
  "Vector2_double \<Rightarrow> Vector2_double \<Rightarrow> Vector2_double \<Rightarrow> Vector2_double \<Rightarrow> number \<times> number"
where
  "computed_numerators pt t0 t1 t2 =
     (let cx = fst pt; cy = snd pt;
          v0x = minus_double (fst t2) (fst t0); v0y = minus_double (snd t2) (snd t0);
          v1x = minus_double (fst t1) (fst t0); v1y = minus_double (snd t1) (snd t0);
          v2x = minus_double cx (fst t0); v2y = minus_double cy (snd t0);
          dot00 = plus_double (times_double v0x v0x) (times_double v0y v0y);
          dot01 = plus_double (times_double v0x v1x) (times_double v0y v1y);
          dot02 = plus_double (times_double v0x v2x) (times_double v0y v2y);
          dot11 = plus_double (times_double v1x v1x) (times_double v1y v1y);
          dot12 = plus_double (times_double v1x v2x) (times_double v1y v2y)
      in (minus_double (times_double dot11 dot02) (times_double dot01 dot12),
          minus_double (times_double dot00 dot12) (times_double dot01 dot02)))"

text \<open>The same computation in stages, each applied to the values of the stage before:
  the edge vectors, their dot products, the denominator with the two numerators, and
  the test of the barycentric coordinates.\<close>

fun edge_vectors ::
  "Vector2_double \<Rightarrow> Vector2_double \<Rightarrow> Vector2_double \<Rightarrow> Vector2_double
     \<Rightarrow> number \<times> number \<times> number \<times> number \<times> number \<times> number" where
  "edge_vectors (cx, cy) (t0x, t0y) (t1x, t1y) (t2x, t2y) =
     (minus_double t2x t0x, minus_double t2y t0y, minus_double t1x t0x, minus_double t1y t0y,
      minus_double cx t0x, minus_double cy t0y)"

fun dot_products ::
  "number \<times> number \<times> number \<times> number \<times> number \<times> number
     \<Rightarrow> number \<times> number \<times> number \<times> number \<times> number" where
  "dot_products (v0x, v0y, v1x, v1y, v2x, v2y) =
     (plus_double (times_double v0x v0x) (times_double v0y v0y),
      plus_double (times_double v0x v1x) (times_double v0y v1y),
      plus_double (times_double v0x v2x) (times_double v0y v2y),
      plus_double (times_double v1x v1x) (times_double v1y v1y),
      plus_double (times_double v1x v2x) (times_double v1y v2y))"

fun barycentric_terms ::
  "number \<times> number \<times> number \<times> number \<times> number \<Rightarrow> number \<times> number \<times> number" where
  "barycentric_terms (dot00, dot01, dot02, dot11, dot12) =
     (minus_double (times_double dot00 dot11) (times_double dot01 dot01),
      minus_double (times_double dot11 dot02) (times_double dot01 dot12),
      minus_double (times_double dot00 dot12) (times_double dot01 dot02))"

fun coordinates_test :: "number \<times> number \<Rightarrow> bool" where
  "coordinates_test (u, v) =
     (less_eq_double (Finite 0) u \<and> less_eq_double (Finite 0) v
      \<and> less_eq_double (plus_double u v) (Finite 1))"

fun scaled :: "number \<times> number \<Rightarrow> number option \<Rightarrow> bool option" where
  "scaled (nu, nv) (Some inv_b) =
     Some (coordinates_test (times_double nu inv_b, times_double nv inv_b))"
| "scaled (nu, nv) None = None"

fun barycentric_test :: "number \<times> number \<times> number \<Rightarrow> bool option" where
  "barycentric_test (b, nu, nv) =
     scaled (nu, nv) (if b = Finite 0 then Some (Finite 0) else divide_double (Finite 1) b)"

section \<open>Properties of the flood fill\<close>

lemma chain_mono: "chain hit step V a x \<Longrightarrow> V \<subseteq> W \<Longrightarrow> chain hit step W a x"
  by (induction rule: chain.induct) (auto intro: chain.intros)

lemma chain_trans: "chain hit step V b x \<Longrightarrow> chain hit step V a b \<Longrightarrow> chain hit step V a x"
  by (induction rule: chain.induct) (auto intro: chain.intros)

lemma chain_head: "chain hit step V a x \<Longrightarrow> a \<in> V \<and> hit a"
  by (induction rule: chain.induct) auto

lemma add_recursive_SucE:
  assumes "add_recursive (Suc d) f c r tm = Some (Inr tm')"
  obtains (skip) "tm' = tm" "\<not> (0 \<le> f \<and> f \<notin> visited tm \<and> face_intersects tm c r f)"
        | (enter) es where "0 \<le> f" "f \<notin> visited tm" "face_intersects tm c r f"
            "adjacent_entries tm f = Inr es"
            "visit_adjacent d es c r (mark f tm) = Some (Inr tm')"
  using assms
  by (auto simp: visited_def face_intersects_def split: if_splits option.splits sum.splits)

lemma visit_adjacent_ConsE:
  assumes "visit_adjacent d (e # es) c r tm = Some (Inr tm')"
  obtains (front) nb tm1 where "e = Some nb" "front_facing tm nb = Inr True"
            "add_recursive d (int nb) c r tm = Some (Inr tm1)"
            "visit_adjacent d es c r tm1 = Some (Inr tm')"
        | (away) nb where "e = Some nb" "front_facing tm nb = Inr False"
            "visit_adjacent d es c r tm = Some (Inr tm')"
  using assms
  by (cases e) (auto split: sum.splits bool.splits option.splits)

lemma length_ta_set [simp]: "length (ta_set w xs i v) = length xs"
  by (simp add: ta_set_def)

lemma ta_get_ta_set:
  "ta_get (ta_set w xs i v) j =
     (if j = i \<and> 0 \<le> i \<and> i < int (length xs) then Some (nat (v mod 2 ^ w)) else ta_get xs j)"
  by (auto simp: ta_get_def ta_set_def nth_list_update)

lemma frame_refl: "frame tm tm"
  unfolding frame_def by (rule exI[of _ "isFloodFill tm"], rule exI[of _ "recorder tm"]) simp

lemma frame_trans: "frame tm tm1 \<Longrightarrow> frame tm1 tm2 \<Longrightarrow> frame tm tm2"
proof -
  assume "frame tm tm1" "frame tm1 tm2"
  then obtain b r b' r' where "tm1 = tm \<lparr> isFloodFill := b, recorder := r \<rparr>"
    "tm2 = tm1 \<lparr> isFloodFill := b', recorder := r' \<rparr>"
    unfolding frame_def by blast
  then have "tm2 = tm \<lparr> isFloodFill := b', recorder := r' \<rparr>" by simp
  then show ?thesis unfolding frame_def by blast
qed

lemma frame_mark: "frame tm (mark f tm)"
  unfolding frame_def mark_def by blast

lemma frame_scene:
  assumes "frame tm tm'"
  shows "face_intersects tm' = face_intersects tm" "fill_step tm' = fill_step tm"
    "front_facing tm' = front_facing tm" "adjacent_entries tm' = adjacent_entries tm"
    "connected_from tm' = connected_from tm"
    "drawingTextureUvs tm' = drawingTextureUvs tm"
proof -
  from assms obtain b r where eq: "tm' = tm \<lparr> isFloodFill := b, recorder := r \<rparr>"
    unfolding frame_def by blast
  show a: "face_intersects tm' = face_intersects tm"
    by (rule ext)+ (simp add: eq face_intersects_def cong: option.case_cong)
  show c: "front_facing tm' = front_facing tm"
    by (rule ext)+ (simp add: eq front_facing_def cong: option.case_cong)
  show d: "adjacent_entries tm' = adjacent_entries tm"
    by (rule ext)+ (simp add: eq adjacent_entries_def cong: option.case_cong if_cong)
  show b: "fill_step tm' = fill_step tm"
    by (rule ext)+ (simp add: fill_step_def c d cong: sum.case_cong)
  show "connected_from tm' = connected_from tm"
    by (rule ext)+ (simp add: connected_from_def a b)
  show "drawingTextureUvs tm' = drawingTextureUvs tm"
    by (simp add: eq)
qed

text \<open>A relation between states that holds across one marking holds across a whole run.\<close>

lemma visit_adjacent_rel:
  assumes refl: "\<And>tm. R tm tm"
    and trans: "\<And>tm tm1 tm2. R tm tm1 \<Longrightarrow> R tm1 tm2 \<Longrightarrow> R tm tm2"
    and add: "\<And>f tm tm'. add_recursive d f c r tm = Some (Inr tm') \<Longrightarrow> R tm tm'"
  shows "visit_adjacent d es c r tm = Some (Inr tm') \<Longrightarrow> R tm tm'"
proof (induction es arbitrary: tm)
  case Nil
  then show ?case by (simp add: refl)
next
  case (Cons e es)
  from Cons.prems show ?case
  proof (cases rule: visit_adjacent_ConsE)
    case (front nb tm1)
    then show ?thesis using add Cons.IH trans by blast
  next
    case (away nb)
    then show ?thesis using Cons.IH by blast
  qed
qed

lemma add_recursive_rel:
  assumes refl: "\<And>tm. R tm tm"
    and trans: "\<And>tm tm1 tm2. R tm tm1 \<Longrightarrow> R tm1 tm2 \<Longrightarrow> R tm tm2"
    and mark: "\<And>f tm. 0 \<le> f \<Longrightarrow> f \<notin> visited tm \<Longrightarrow> face_intersects tm c r f \<Longrightarrow> R tm (mark f tm)"
  shows "add_recursive d f c r tm = Some (Inr tm') \<Longrightarrow> R tm tm'"
proof (induction d arbitrary: f tm tm')
  case 0
  then show ?case by simp
next
  case (Suc d)
  from Suc.prems show ?case
  proof (cases rule: add_recursive_SucE)
    case skip
    then show ?thesis by (simp add: refl)
  next
    case (enter es)
    have "R (mark f tm) tm'"
    proof (rule visit_adjacent_rel[where R = R])
      show "\<And>tm. R tm tm" by (rule refl)
      show "\<And>tm tm1 tm2. R tm tm1 \<Longrightarrow> R tm1 tm2 \<Longrightarrow> R tm tm2" by (rule trans)
      show "\<And>f tm tm'. add_recursive d f c r tm = Some (Inr tm') \<Longrightarrow> R tm tm'"
        by (rule Suc.IH)
      show "visit_adjacent d es c r (mark f tm) = Some (Inr tm')" by (rule enter(5))
    qed
    moreover have "R tm (mark f tm)" using enter by (intro mark)
    ultimately show ?thesis using trans by blast
  qed
qed

lemma add_recursive_frame: "add_recursive d f c r tm = Some (Inr tm') \<Longrightarrow> frame tm tm'"
  by (rule add_recursive_rel[where R = frame]) (auto intro: frame_refl frame_trans frame_mark)

lemma visit_adjacent_frame: "visit_adjacent d es c r tm = Some (Inr tm') \<Longrightarrow> frame tm tm'"
  by (rule visit_adjacent_rel[where R = frame])
    (auto intro: frame_refl frame_trans add_recursive_frame)

lemma visited_mark_upper: "visited (mark f tm) \<subseteq> insert f (visited tm)"
  by (auto simp: visited_def mark_def ta_get_ta_set split: if_splits)

lemma visited_mark_lower: "visited tm \<subseteq> visited (mark f tm)"
  by (auto simp: visited_def mark_def ta_get_ta_set)

lemma visited_mark_self:
  "0 \<le> f \<Longrightarrow> f < int (length (isFloodFill tm)) \<Longrightarrow> f \<in> visited (mark f tm)"
  by (simp add: visited_def mark_def ta_get_ta_set)

lemma add_recursive_visited_mono:
  "add_recursive d f c r tm = Some (Inr tm') \<Longrightarrow> visited tm \<subseteq> visited tm'"
  by (rule add_recursive_rel[where R = "\<lambda>s t. visited s \<subseteq> visited t"])
    (use visited_mark_lower in auto)

lemma visit_adjacent_visited_mono:
  "visit_adjacent d es c r tm = Some (Inr tm') \<Longrightarrow> visited tm \<subseteq> visited tm'"
  by (rule visit_adjacent_rel[where R = "\<lambda>s t. visited s \<subseteq> visited t"])
    (use add_recursive_visited_mono in auto)

lemma add_recursive_length:
  "add_recursive d f c r tm = Some (Inr tm') \<Longrightarrow> length (isFloodFill tm') = length (isFloodFill tm)"
  by (rule add_recursive_rel[where R = "\<lambda>s t. length (isFloodFill t) = length (isFloodFill s)"])
    (auto simp: mark_def)

lemma face_intersects_range:
  "face_intersects tm c r f \<Longrightarrow> 0 \<le> f \<and> f < int (length (drawingTextureUvs tm))"
  by (auto simp: face_intersects_def arr_get_def split: if_splits)

lemma visit_adjacent_length:
  "visit_adjacent d es c r tm = Some (Inr tm') \<Longrightarrow> length (isFloodFill tm') = length (isFloodFill tm)"
  by (rule visit_adjacent_rel[where R = "\<lambda>s t. length (isFloodFill t) = length (isFloodFill s)"])
    (use add_recursive_length in auto)

lemma covered_frame:
  "frame tm tm' \<Longrightarrow> length (isFloodFill tm') = length (isFloodFill tm) \<Longrightarrow> covered tm' = covered tm"
  by (simp add: covered_def frame_scene(6))

lemma visit_adjacent_connected:
  assumes add: "\<And>f tm tm' x. add_recursive d f c r tm = Some (Inr tm') \<Longrightarrow> covered tm
      \<Longrightarrow> x \<in> visited tm' \<Longrightarrow> x \<notin> visited tm \<Longrightarrow> connected_from tm c r (visited tm') f x"
  shows "visit_adjacent d es c r tm = Some (Inr tm') \<Longrightarrow> covered tm
      \<Longrightarrow> x \<in> visited tm' \<Longrightarrow> x \<notin> visited tm
      \<Longrightarrow> \<exists>nb. Some nb \<in> set es \<and> front_facing tm nb = Inr True
             \<and> connected_from tm c r (visited tm') (int nb) x"
proof (induction es arbitrary: tm)
  case Nil
  then show ?case by simp
next
  case (Cons e es)
  from Cons.prems(1) show ?case
  proof (cases rule: visit_adjacent_ConsE)
    case (front nb tm1)
    have fr: "frame tm tm1" using front(3) by (rule add_recursive_frame)
    have len: "length (isFloodFill tm1) = length (isFloodFill tm)"
      using front(3) by (rule add_recursive_length)
    have cov: "covered tm1" using covered_frame[OF fr len] Cons.prems(2) by simp
    have mono: "visited tm1 \<subseteq> visited tm'" using front(4) by (rule visit_adjacent_visited_mono)
    show ?thesis
    proof (cases "x \<in> visited tm1")
      case True
      have "connected_from tm c r (visited tm1) (int nb) x"
        using add[OF front(3) Cons.prems(2) True Cons.prems(4)] .
      then have "connected_from tm c r (visited tm') (int nb) x"
        unfolding connected_from_def using mono by (rule chain_mono)
      then show ?thesis using front(1,2) by auto
    next
      case False
      from Cons.IH[OF front(4) cov Cons.prems(3) False]
      obtain nb' where "Some nb' \<in> set es" "front_facing tm1 nb' = Inr True"
        "connected_from tm1 c r (visited tm') (int nb') x" by blast
      then show ?thesis using frame_scene[OF fr] by auto
    qed
  next
    case (away nb)
    from Cons.IH[OF away(3) Cons.prems(2,3,4)] show ?thesis by auto
  qed
qed

lemma add_recursive_connected:
  "add_recursive d f c r tm = Some (Inr tm') \<Longrightarrow> covered tm
     \<Longrightarrow> x \<in> visited tm' \<Longrightarrow> x \<notin> visited tm \<Longrightarrow> connected_from tm c r (visited tm') f x"
proof (induction d arbitrary: f tm tm' x)
  case 0
  then show ?case by simp
next
  case (Suc d)
  from Suc.prems(1) show ?case
  proof (cases rule: add_recursive_SucE)
    case skip
    then show ?thesis using Suc.prems by simp
  next
    case (enter es)
    have fr: "frame tm (mark f tm)" by (rule frame_mark)
    have cov: "covered (mark f tm)"
      using Suc.prems(2) by (simp add: covered_def mark_def)
    have "f < int (length (isFloodFill tm))"
      using face_intersects_range[OF enter(3)] Suc.prems(2) by (simp add: covered_def)
    then have "f \<in> visited (mark f tm)" using enter(1) by (simp add: visited_mark_self)
    then have fV: "f \<in> visited tm'"
      using visit_adjacent_visited_mono[OF enter(5)] by blast
    have start: "connected_from tm c r (visited tm') f f"
      unfolding connected_from_def using fV enter(3) by (rule chain_start)
    show ?thesis
    proof (cases "x = f")
      case True
      then show ?thesis using start by simp
    next
      case False
      then have "x \<notin> visited (mark f tm)"
        using visited_mark_upper[of f tm] Suc.prems(4) by blast
      from visit_adjacent_connected[where d = d, OF Suc.IH enter(5) cov Suc.prems(3) this]
      obtain nb where nb: "Some nb \<in> set es" "front_facing (mark f tm) nb = Inr True"
        "connected_from (mark f tm) c r (visited tm') (int nb) x" by blast
      have tail: "chain (face_intersects tm c r) (fill_step tm) (visited tm') (int nb) x"
        using nb(3) frame_scene[OF fr] by (simp add: connected_from_def)
      have step: "fill_step tm f nb"
        using nb(1,2) enter(4) frame_scene[OF fr] by (simp add: fill_step_def)
      have "chain (face_intersects tm c r) (fill_step tm) (visited tm') f (int nb)"
        using start step chain_head[OF tail] unfolding connected_from_def
        by (auto intro: chain_step)
      with tail show ?thesis unfolding connected_from_def by (rule chain_trans)
    qed
  qed
qed

lemma filter_zero_update_le:
  "v \<noteq> 0 \<Longrightarrow> length (filter (\<lambda>v. v = 0) (xs[i := v])) \<le> length (filter (\<lambda>v. v = (0::nat)) xs)"
  by (induction xs arbitrary: i) (auto split: nat.splits)

lemma filter_zero_update_less:
  "v \<noteq> 0 \<Longrightarrow> i < length xs \<Longrightarrow> xs ! i = 0
     \<Longrightarrow> length (filter (\<lambda>v. v = 0) (xs[i := v])) < length (filter (\<lambda>v. v = (0::nat)) xs)"
proof (induction xs arbitrary: i)
  case Nil
  then show ?case by simp
next
  case (Cons a xs)
  show ?case
  proof (cases i)
    case 0
    then show ?thesis using Cons.prems by (simp add: le_imp_less_Suc)
  next
    case (Suc j)
    then show ?thesis using Cons.prems Cons.IH[of j] by auto
  qed
qed

lemma unvisited_mark_le: "unvisited (mark f tm) \<le> unvisited tm"
  by (simp add: unvisited_def mark_def ta_set_def filter_zero_update_le)

lemma unvisited_mark_less:
  assumes "0 \<le> f" "f < int (length (isFloodFill tm))" "f \<notin> visited tm"
  shows "unvisited (mark f tm) < unvisited tm"
proof -
  have "isFloodFill tm ! nat f = 0"
    using assms by (simp add: visited_def ta_get_def)
  then show ?thesis
    using assms by (simp add: unvisited_def mark_def ta_set_def filter_zero_update_less)
qed

lemma add_recursive_unvisited:
  "add_recursive d f c r tm = Some (Inr tm') \<Longrightarrow> unvisited tm' \<le> unvisited tm"
  by (rule add_recursive_rel[where R = "\<lambda>s t. unvisited t \<le> unvisited s"])
    (use unvisited_mark_le in auto)

lemma add_recursive_covered:
  "add_recursive d f c r tm = Some (Inr tm') \<Longrightarrow> covered tm \<Longrightarrow> covered tm'"
  using covered_frame[OF add_recursive_frame add_recursive_length] by blast

lemma visit_adjacent_returns:
  assumes add: "\<And>f tm. covered tm \<Longrightarrow> unvisited tm < d \<Longrightarrow> add_recursive d f c r tm \<noteq> None"
  shows "covered tm \<Longrightarrow> unvisited tm < d \<Longrightarrow> visit_adjacent d es c r tm \<noteq> None"
proof (induction es arbitrary: tm)
  case Nil
  then show ?case by simp
next
  case (Cons e es)
  show ?case
  proof (cases e)
    case None
    then show ?thesis by simp
  next
    case (Some nb)
    show ?thesis
    proof (cases "front_facing tm nb")
      case (Inl err)
      then show ?thesis using Some by simp
    next
      case (Inr facing)
      show ?thesis
      proof (cases facing)
        case False
        then show ?thesis using Some Inr Cons by simp
      next
        case True
        from add[OF Cons.prems] obtain res where res: "add_recursive d (int nb) c r tm = Some res"
          by blast
        show ?thesis
        proof (cases res)
          case (Inl err)
          then show ?thesis using Some Inr True res by simp
        next
          case (Inr tm1)
          then have run: "add_recursive d (int nb) c r tm = Some (Inr tm1)" using res by simp
          have "covered tm1" using add_recursive_covered[OF run Cons.prems(1)] .
          moreover have "unvisited tm1 < d"
            using add_recursive_unvisited[OF run] Cons.prems(2) by simp
          ultimately have "visit_adjacent d es c r tm1 \<noteq> None" by (rule Cons.IH)
          then show ?thesis using Some \<open>front_facing tm nb = Inr facing\<close> True run by simp
        qed
      qed
    qed
  qed
qed

lemma add_recursive_returns:
  "covered tm \<Longrightarrow> unvisited tm < d \<Longrightarrow> add_recursive d f c r tm \<noteq> None"
proof (induction d arbitrary: f tm)
  case 0
  then show ?case by simp
next
  case (Suc d)
  show ?case
  proof (cases "0 \<le> f \<and> f \<notin> visited tm \<and> face_intersects tm c r f")
    case False
    then show ?thesis
      by (auto simp: visited_def face_intersects_def split: option.splits)
  next
    case True
    then obtain uvs where uvs: "arr_get (drawingTextureUvs tm) f = Some uvs"
      "intersects (drawingCanvas tm) uvs c r"
      by (auto simp: face_intersects_def split: option.splits)
    have range: "f < int (length (isFloodFill tm))"
      using face_intersects_range[of tm c r f] True Suc.prems(1) by (simp add: covered_def)
    have less: "unvisited (mark f tm) < d"
      using unvisited_mark_less[of f tm] True range Suc.prems(2) by simp
    have cov: "covered (mark f tm)" using Suc.prems(1) by (simp add: covered_def mark_def)
    show ?thesis
    proof (cases "adjacent_entries tm f")
      case (Inl err)
      then show ?thesis using True uvs by (simp add: visited_def)
    next
      case (Inr es)
      have "visit_adjacent d es c r (mark f tm) \<noteq> None"
        using cov less
      proof (rule visit_adjacent_returns[rotated])
        show "\<And>f tm. covered tm \<Longrightarrow> unvisited tm < d \<Longrightarrow> add_recursive d f c r tm \<noteq> None"
          by (rule Suc.IH)
      qed
      then show ?thesis using True uvs Inr by (simp add: visited_def)
    qed
  qed
qed

section \<open>Properties of the recorder and of a stroke sample\<close>

lemma forEach_args_ok:
  "nAffectedFaces r \<le> length (affectedFaces r)
     \<Longrightarrow> forEach_args r = map Some (take (nAffectedFaces r) (affectedFaces r))"
  by (auto simp: forEach_args_def ta_get_def intro!: nth_equalityI)

lemma members_ok:
  "recorder_ok r \<Longrightarrow> members r = Some ` {f. f < length (isFaceAffected r) \<and> isFaceAffected r ! f \<noteq> 0}"
  by (simp add: members_def recorder_ok_def forEach_args_ok)

lemma contains_iff:
  "contains r f \<longleftrightarrow> 0 \<le> f \<and> f < int (length (isFaceAffected r)) \<and> isFaceAffected r ! nat f \<noteq> 0"
  by (auto simp: contains_def ta_get_def)

lemma recorder_room:
  assumes ok: "recorder_ok r" and f: "f < length (isFaceAffected r)" "isFaceAffected r ! f = 0"
  shows "nAffectedFaces r < length (affectedFaces r)"
proof -
  let ?S = "set (take (nAffectedFaces r) (affectedFaces r))"
  let ?N = "length (isFaceAffected r)"
  have st: "?S = {g. g < ?N \<and> isFaceAffected r ! g \<noteq> 0}"
    and d: "distinct (take (nAffectedFaces r) (affectedFaces r))"
    and le: "nAffectedFaces r \<le> length (affectedFaces r)"
    and len: "length (affectedFaces r) = ?N"
    using ok unfolding recorder_ok_def by blast+
  have "?S \<subseteq> {..<?N} - {f}"
    unfolding st using f(2) by auto
  then have "card ?S \<le> card ({..<?N} - {f})"
    by (rule card_mono[rotated]) simp
  also have "\<dots> = ?N - 1" using f(1) by simp
  finally have "card ?S < ?N" using f(1) by simp
  moreover have "card ?S = nAffectedFaces r"
    using distinct_card[OF d] le by simp
  ultimately show ?thesis using len by simp
qed

lemma add_present:
  assumes f: "0 \<le> f" "f < int (length (isFaceAffected r))" "isFaceAffected r ! nat f \<noteq> 0"
  shows "add f r = r"
  using f by (simp add: add_def ta_get_def)

lemma add_fresh:
  assumes ok: "recorder_ok r" and f: "0 \<le> f" "f < int (length (isFaceAffected r))"
    "isFaceAffected r ! nat f = 0"
  shows "add f r = r \<lparr> isFaceAffected := (isFaceAffected r)[nat f := 1],
                affectedFaces := (affectedFaces r)[nAffectedFaces r := nat f],
                nAffectedFaces := nAffectedFaces r + 1 \<rparr>"
proof -
  have room: "nAffectedFaces r < length (affectedFaces r)"
    using recorder_room[OF ok, of "nat f"] f by simp
  have "f < 4294967296" using f(2) ok by (simp add: recorder_ok_def)
  then have fmod: "f mod 4294967296 = f" using f(1) by simp
  show ?thesis
    using f room by (simp add: add_def ta_get_def ta_set_def fmod)
qed

lemma add_ok:
  assumes ok: "recorder_ok r" and f: "0 \<le> f" "f < int (length (isFaceAffected r))"
  shows "recorder_ok (add f r) \<and> members (add f r) = insert (Some (nat f)) (members r)"
proof (cases "isFaceAffected r ! nat f = 0")
  case False
  then have same: "add f r = r" using f by (simp add: add_present)
  have "Some (nat f) \<in> members r"
    using False f by (simp add: members_ok[OF ok])
  then show ?thesis using ok same by auto
next
  case True
  let ?n = "nAffectedFaces r" and ?N = "length (isFaceAffected r)"
  let ?r' = "r \<lparr> isFaceAffected := (isFaceAffected r)[nat f := 1],
                affectedFaces := (affectedFaces r)[?n := nat f],
                nAffectedFaces := ?n + 1 \<rparr>"
  have fN: "nat f < ?N" using f by simp
  have room: "?n < length (affectedFaces r)" using recorder_room[OF ok fN True] .
  have eq: "add f r = ?r'" by (rule add_fresh[OF ok f True])
  have st: "set (take ?n (affectedFaces r)) = {g. g < ?N \<and> isFaceAffected r ! g \<noteq> 0}"
    and d: "distinct (take ?n (affectedFaces r))"
    and len: "length (affectedFaces r) = ?N" "?N \<le> 2 ^ 32"
    and emp: "isFaceAffectedEmpty r = replicate ?N 0"
    using ok unfolding recorder_ok_def by blast+
  have tk: "take (?n + 1) ((affectedFaces r)[?n := nat f]) = take ?n (affectedFaces r) @ [nat f]"
    using room by (simp add: take_Suc_conv_app_nth)
  have notin: "nat f \<notin> set (take ?n (affectedFaces r))"
    unfolding st using True by simp
  have set': "{g. g < ?N \<and> (isFaceAffected r)[nat f := 1] ! g \<noteq> 0}
      = insert (nat f) {g. g < ?N \<and> isFaceAffected r ! g \<noteq> 0}"
    using fN by (auto simp: nth_list_update)
  have ok': "recorder_ok ?r'"
    unfolding recorder_ok_def
  proof (intro conjI)
    show "length (affectedFaces ?r') = length (isFaceAffected ?r')" using len by simp
    show "length (isFaceAffected ?r') \<le> 2 ^ 32" using len by simp
    show "distinct (take (nAffectedFaces ?r') (affectedFaces ?r'))"
      using d notin tk by simp
    show "set (take (nAffectedFaces ?r') (affectedFaces ?r')) =
        {fa. fa < length (isFaceAffected ?r') \<and> isFaceAffected ?r' ! fa \<noteq> 0}"
      using tk st set' by simp
    show "nAffectedFaces ?r' \<le> length (affectedFaces ?r')" using room by simp
    show "isFaceAffectedEmpty ?r' = replicate (length (isFaceAffected ?r')) 0"
      using emp by simp
  qed
  have "members ?r' = insert (Some (nat f)) (members r)"
    unfolding members_ok[OF ok'] members_ok[OF ok] using set' by simp
  with ok' show ?thesis unfolding eq by simp
qed

lemma add_length:
  "length (isFaceAffected (add f r)) = length (isFaceAffected r)"
  "isFaceAffectedEmpty (add f r) = isFaceAffectedEmpty r"
  by (simp_all add: add_def)

lemma grown_refl: "grown s s"
  by (simp add: grown_def)

lemma grown_trans: "grown s t \<Longrightarrow> grown t u \<Longrightarrow> grown s u"
  unfolding grown_def by (auto simp: image_Un[symmetric])

lemma grown_mark:
  assumes "0 \<le> f" "f \<notin> visited tm" "face_intersects tm c r f"
  shows "grown tm (mark f tm)"
  unfolding grown_def
proof (intro impI conjI)
  assume inv: "fill_inv tm"
  have range: "f < int (length (drawingTextureUvs tm))"
    using face_intersects_range[OF assms(3)] by simp
  have fb: "f < int (length (isFloodFill tm))"
    and fr: "f < int (length (isFaceAffected (recorder tm)))"
    and ok: "recorder_ok (recorder tm)"
    using inv range by (simp_all add: fill_inv_def covered_def)
  note a = add_ok[OF ok assms(1) fr]
  show "fill_inv (mark f tm)"
    using inv a by (simp add: fill_inv_def covered_def mark_def add_length)
  show "visited tm \<subseteq> visited (mark f tm)" by (rule visited_mark_lower)
  have "visited (mark f tm) - visited tm = {f}"
    using visited_mark_upper[of f tm] visited_mark_self[OF assms(1) fb] assms(2) by auto
  then show "members (recorder (mark f tm)) =
      members (recorder tm) \<union> (\<lambda>f. Some (nat f)) ` (visited (mark f tm) - visited tm)"
    using a by (simp add: mark_def)
qed

lemma add_recursive_grown: "add_recursive d f c r tm = Some (Inr tm') \<Longrightarrow> grown tm tm'"
  by (rule add_recursive_rel[where R = grown]) (auto intro: grown_refl grown_trans grown_mark)

lemma add_recursive_hit:
  "add_recursive d f c r tm = Some (Inr tm') \<Longrightarrow> x \<in> visited tm' \<Longrightarrow> x \<notin> visited tm
     \<Longrightarrow> face_intersects tm c r x"
proof -
  let ?R = "\<lambda>s t. frame s t \<and> (\<forall>x. x \<in> visited t \<longrightarrow> x \<notin> visited s \<longrightarrow> face_intersects s c r x)"
  assume run: "add_recursive d f c r tm = Some (Inr tm')"
  have "?R tm tm'"
  proof (rule add_recursive_rel[where R = ?R, OF _ _ _ run])
    show "\<And>tm. ?R tm tm" by (simp add: frame_refl)
    show "\<And>tm tm1 tm2. ?R tm tm1 \<Longrightarrow> ?R tm1 tm2 \<Longrightarrow> ?R tm tm2"
      using frame_trans frame_scene(1) by metis
    show "\<And>f tm. 0 \<le> f \<Longrightarrow> f \<notin> visited tm \<Longrightarrow> face_intersects tm c r f \<Longrightarrow> ?R tm (mark f tm)"
      using frame_mark visited_mark_upper by blast
  qed
  then show "x \<in> visited tm' \<Longrightarrow> x \<notin> visited tm \<Longrightarrow> face_intersects tm c r x" by blast
qed

lemma add_recursive_seed:
  assumes "0 \<le> f" "face_intersects tm c r f" "covered tm"
    "add_recursive (Suc d) f c r tm = Some (Inr tm')"
  shows "f \<in> visited tm'"
proof (cases "f \<in> visited tm")
  case True
  then show ?thesis using add_recursive_visited_mono[OF assms(4)] by blast
next
  case False
  from assms(4) show ?thesis
  proof (cases rule: add_recursive_SucE)
    case skip
    then show ?thesis using assms False by simp
  next
    case (enter es)
    have "f < int (length (isFloodFill tm))"
      using face_intersects_range[OF assms(2)] assms(3) by (simp add: covered_def)
    then have "f \<in> visited (mark f tm)" using assms(1) by (simp add: visited_mark_self)
    then show ?thesis using visit_adjacent_visited_mono[OF enter(5)] by blast
  qed
qed

text \<open>The start of a stroke sample on a ready state.\<close>

lemma ready_cleared:
  assumes "stroke_ready tm"
  shows "ta_copy (isFloodFill tm) (isFloodFillEmpty tm) = Inr (replicate (length (isFloodFill tm)) 0)"
  using assms by (simp add: stroke_ready_def ta_copy_def)

lemma visited_cleared: "visited (tm \<lparr> isFloodFill := replicate n 0 \<rparr>) = {}"
  by (auto simp: visited_def ta_get_def)

lemma fill_inv_cleared:
  "fill_inv tm \<Longrightarrow> fill_inv (tm \<lparr> isFloodFill := replicate (length (isFloodFill tm)) 0 \<rparr>)"
  by (simp add: fill_inv_def covered_def)

lemma onStrokePainted_hit:
  assumes "stroke_ready tm"
  shows "onStrokePainted (seed # others) c r tm =
     add_recursive (Suc (length (isFloodFill tm))) seed c r
       (tm \<lparr> isFloodFill := replicate (length (isFloodFill tm)) 0 \<rparr>)"
  by (simp add: onStrokePainted_def ready_cleared[OF assms])

lemma scene_cleared:
  "face_intersects (tm \<lparr> isFloodFill := b \<rparr>) = face_intersects tm"
  "connected_from (tm \<lparr> isFloodFill := b \<rparr>) = connected_from tm"
proof -
  have "frame tm (tm \<lparr> isFloodFill := b \<rparr>)"
    unfolding frame_def by (rule exI[of _ b], rule exI[of _ "recorder tm"]) simp
  then show "face_intersects (tm \<lparr> isFloodFill := b \<rparr>) = face_intersects tm"
    "connected_from (tm \<lparr> isFloodFill := b \<rparr>) = connected_from tm"
    by (simp_all add: frame_scene)
qed

lemma onStrokePainted_returns:
  assumes "stroke_ready tm"
  shows "onStrokePainted hits c r tm \<noteq> None"
proof (cases hits)
  case Nil
  then show ?thesis by (simp add: onStrokePainted_def)
next
  case (Cons seed others)
  let ?tm1 = "tm \<lparr> isFloodFill := replicate (length (isFloodFill tm)) 0 \<rparr>"
  have "covered ?tm1" using assms by (simp add: stroke_ready_def fill_inv_def covered_def)
  moreover have "unvisited ?tm1 < Suc (length (isFloodFill tm))"
    by (simp add: unvisited_def)
  ultimately show ?thesis
    unfolding Cons onStrokePainted_hit[OF assms] by (rule add_recursive_returns)
qed

lemma onStrokePainted_ready:
  assumes "stroke_ready tm" "onStrokePainted hits c r tm = Some (Inr tm')"
  shows "stroke_ready tm'"
proof (cases hits)
  case Nil
  then show ?thesis using assms by (simp add: onStrokePainted_def)
next
  case (Cons seed others)
  let ?tm1 = "tm \<lparr> isFloodFill := replicate (length (isFloodFill tm)) 0 \<rparr>"
  have run: "add_recursive (Suc (length (isFloodFill tm))) seed c r ?tm1 = Some (Inr tm')"
    using assms(2) unfolding Cons onStrokePainted_hit[OF assms(1)] .
  have inv1: "fill_inv ?tm1" using assms(1) by (simp add: stroke_ready_def fill_inv_cleared)
  have "fill_inv tm'" using add_recursive_grown[OF run] inv1 by (simp add: grown_def)
  moreover have "length (isFloodFill tm') = length (isFloodFill tm)"
    using add_recursive_length[OF run] by simp
  moreover have "isFloodFillEmpty tm' = isFloodFillEmpty tm"
  proof -
    from add_recursive_frame[OF run] obtain b q where "tm' = ?tm1 \<lparr> isFloodFill := b, recorder := q \<rparr>"
      unfolding frame_def by blast
    then show ?thesis by simp
  qed
  ultimately show ?thesis using assms(1) by (simp add: stroke_ready_def)
qed

lemma reset_ok:
  assumes ok: "recorder_ok r"
  shows "\<exists>r'. reset r = Inr r' \<and> recorder_ok r' \<and> nAffectedFaces r' = 0
           \<and> length (isFaceAffected r') = length (isFaceAffected r)"
proof -
  let ?N = "length (isFaceAffected r)"
  have emp: "isFaceAffectedEmpty r = replicate ?N 0"
    and len: "length (affectedFaces r) = ?N" "?N \<le> 2 ^ 32"
    using ok unfolding recorder_ok_def by blast+
  let ?r' = "r \<lparr> nAffectedFaces := 0, isFaceAffected := replicate ?N 0 \<rparr>"
  have eq: "reset r = Inr ?r'"
    by (simp add: reset_def ta_copy_def emp)
  have "recorder_ok ?r'"
    unfolding recorder_ok_def using len emp by simp
  then show ?thesis using eq by simp
qed

lemma new_recorder_ok: "n \<le> 2 ^ 32 \<Longrightarrow> recorder_ok (new_AffectedFacesRecorder n)"
  unfolding recorder_ok_def by (simp add: new_AffectedFacesRecorder_def)

lemma new_ready:
  assumes "new_TextureManager g cam = Inr tm" "length (faces g) \<le> 2 ^ 32"
  shows "stroke_ready tm"
proof -
  from assms(1) obtain n adj where
    tm: "tm = \<lparr> geometry = g, camera_position = cam,
           viewingTextureUvs = replicate (length (faces g))
             ((Some 0.5, Some 0.5), (Some 0.5, Some 0.5), (Some 0.5, Some 0.5)),
           viewingMaterial = replicate (length (faces g)) SinglePixelCanvas,
           drawingTextureUvs = replicate (length (faces g)) ((0, 0), (0, 0), (0, 0)),
           drawingVertexUvs = replicate (length (vertices g)) (0, 0),
           drawingCanvas = new_canvas,
           recorder = new_AffectedFacesRecorder (length (faces g)),
           isFloodFillEmpty = replicate (length (faces g)) 0,
           isFloodFill = replicate (length (faces g)) 0,
           nAdjacentFaces = n, AdjacentFacesList = adj \<rparr>"
    by (auto simp: new_TextureManager_def Let_def split: sum.splits)
  show ?thesis
    unfolding stroke_ready_def fill_inv_def covered_def
    using new_recorder_ok[OF assms(2)]
    by (simp add: tm new_AffectedFacesRecorder_def)
qed

lemma face_uvs_length: "face_uvs vuvs fs = Inr fuvs \<Longrightarrow> length fuvs = length fs"
  by (induction fs arbitrary: fuvs) (auto split: option.splits sum.splits)

lemma prepareDrawingTexture_ready:
  assumes "stroke_ready tm" "prepareDrawingTexture rd pr tm = Inr tm'"
  shows "stroke_ready tm'"
proof -
  from assms(2) obtain fuvs vuvs where
    tm': "tm' = tm \<lparr> drawingCanvas := rd, drawingVertexUvs := vuvs,
             drawingTextureUvs := fuvs @ drop (length fuvs) (drawingTextureUvs tm) \<rparr>"
    and fu: "face_uvs vuvs (faces (geometry tm)) = Inr fuvs"
    and le: "length (faces (geometry tm)) \<le> length (drawingTextureUvs tm)"
    by (auto simp: prepareDrawingTexture_def Let_def split: if_splits sum.splits)
  have "length (fuvs @ drop (length fuvs) (drawingTextureUvs tm)) = length (drawingTextureUvs tm)"
    using face_uvs_length[OF fu] le by simp
  then show ?thesis
    using assms(1) unfolding stroke_ready_def fill_inv_def covered_def tm' by simp
qed

section \<open>The flood fill stays connected to its seed\<close>

lemma build_square: "build_adjacency square = Inr ([1, 1], [[1, 0], [0, 0]])"
  by code_simp

lemma new_square: "new_TextureManager square cam = Inr (square_tm cam)"
proof -
  have "length (faces square) = 2" "length (vertices square) = 4" by (simp_all add: square_def)
  then show ?thesis
    by (simp add: new_TextureManager_def build_square square_tm_def new_AffectedFacesRecorder_def
      numeral_eq_Suc)
qed

lemma draw_square:
  "prepareDrawingTexture blank100 (\<lambda>p. p) (square_tm cam) = Inr (square_drawn cam)"
  by (simp add: prepareDrawingTexture_def square_tm_def square_drawn_def square_def arr_get_def Let_def)

lemma vlength_zero_iff: "vlength p = 0 \<longleftrightarrow> p = (0, 0, 0)"
proof (cases p)
  case (fields px py pz)
  have "px * px + py * py + pz * pz = 0 \<longleftrightarrow> px = 0 \<and> py = 0 \<and> pz = 0"
    by (smt (verit) mult_eq_0_iff zero_le_square add_nonneg_nonneg)
  then show ?thesis by (simp add: fields vlength_def dot_def)
qed

lemma dot_normalize_sign: "0 < dot n (normalize_vector p) \<longleftrightarrow> 0 < dot n p"
proof (cases "vlength p = 0")
  case True
  then show ?thesis by (simp add: vlength_zero_iff normalize_vector_def dot_def split: prod.splits)
next
  case False
  have "0 \<le> vlength p" by (simp add: vlength_def dot_def split: prod.splits)
  then have pos: "0 < vlength p" using False by simp
  obtain px py pz where p: "p = (px, py, pz)" by (cases p)
  obtain nx ny nz where n: "n = (nx, ny, nz)" by (cases n)
  have "dot n (normalize_vector p) = dot n p / vlength p"
    using False by (simp add: p n normalize_vector_def dot_def add_divide_distrib)
  then show ?thesis using pos by (simp add: zero_less_divide_iff)
qed

lemma front_facing_code [code]:
  "front_facing tm newfaceIndex =
     (case arr_get (faces (geometry tm)) (int newfaceIndex) of
        None \<Rightarrow> Inl TypeError
      | Some f \<Rightarrow> Inr (dot (normal f) (camera_position tm) > 0))"
  by (simp add: front_facing_def dot_normalize_sign cong: option.case_cong)

lemmas eval_defs = onStrokePainted_def ta_copy_def intersects_def to_pixel_def pointInTriangle_def
  lineCircleCollide_def pointCircleCollide_def adjacent_entries_def front_facing_code
  dot_def mark_def add_def ta_get_def ta_set_def arr_get_def Let_def js_div_def


lemmas square_defs = square_drawn_def square_tm_def blank100_def square_def

lemma lineCircleCollide_zero: "lineCircleCollide a b circle 0 = False"
  by (simp add: lineCircleCollide_def pointCircleCollide_def Let_def)

lemma face_intersects_zero: "face_intersects tm c 0 f = contains_center tm c f"
  by (simp add: face_intersects_def contains_center_def intersects_def lineCircleCollide_zero
      Let_def split: option.splits prod.splits)

lemma chain_last: "chain hit step V a x \<Longrightarrow> x \<in> V \<and> hit x"
  by (induction rule: chain.induct) auto

lemma chain_stepped: "chain hit step V a x \<Longrightarrow> x \<noteq> a \<Longrightarrow> \<exists>y nb. x = int nb \<and> step y nb"
  by (induction rule: chain.induct) auto

lemma onStrokePainted_run:
  assumes ready: "stroke_ready tm"
    and run: "onStrokePainted (seed # others) c r tm = Some (Inr tm')"
  shows "\<forall>x\<in>visited tm'. connected_from tm c r (visited tm') seed x"
    and "members (recorder tm') = members (recorder tm) \<union> (\<lambda>f. Some (nat f)) ` visited tm'"
    and "recorder_ok (recorder tm')"
    and "\<not> face_intersects tm c r seed \<Longrightarrow> visited tm' = {} \<and> recorder tm' = recorder tm"
    and "face_intersects tm c r seed \<Longrightarrow> seed \<in> visited tm'"
proof -
  let ?tm1 = "tm \<lparr> isFloodFill := replicate (length (isFloodFill tm)) 0 \<rparr>"
  let ?d = "length (isFloodFill tm)"
  have run1: "add_recursive (Suc ?d) seed c r ?tm1 = Some (Inr tm')"
    using run unfolding onStrokePainted_hit[OF ready] .
  have inv1: "fill_inv ?tm1" using ready by (simp add: stroke_ready_def fill_inv_cleared)
  have cov1: "covered ?tm1" using inv1 by (simp add: fill_inv_def)
  have v1: "visited ?tm1 = {}" by (rule visited_cleared)
  show "\<forall>x\<in>visited tm'. connected_from tm c r (visited tm') seed x"
    using add_recursive_connected[OF run1 cov1] v1 by (simp add: scene_cleared)
  have g: "grown ?tm1 tm'" using run1 by (rule add_recursive_grown)
  show "members (recorder tm') = members (recorder tm) \<union> (\<lambda>f. Some (nat f)) ` visited tm'"
    using g inv1 v1 by (simp add: grown_def)
  show "recorder_ok (recorder tm')"
    using g inv1 by (simp add: grown_def fill_inv_def)
  show "visited tm' = {} \<and> recorder tm' = recorder tm" if "\<not> face_intersects tm c r seed"
    using run1
  proof (cases rule: add_recursive_SucE)
    case skip
    then show ?thesis using v1 by simp
  next
    case (enter es)
    then show ?thesis using that by (simp add: scene_cleared)
  qed
  show "seed \<in> visited tm'" if "face_intersects tm c r seed"
  proof (rule add_recursive_seed[OF _ _ cov1 run1])
    show "0 \<le> seed" using face_intersects_range[OF that] by simp
    show "face_intersects ?tm1 c r seed" using that by (simp add: scene_cleared)
  qed
qed

lemma ready_square_drawn: "stroke_ready (square_drawn cam)"
  using prepareDrawingTexture_ready[OF new_ready[OF new_square] draw_square]
  by (simp add: square_def)

section \<open>The seed, and strokes of radius zero\<close>

lemma members_contains:
  assumes "recorder_ok r" "Some n \<in> members r"
  shows "contains r (int n)"
  using assms(2) unfolding members_ok[OF assms(1)] by (auto simp: contains_iff)

text \<open>
  C1, as the code has it. With radius 0 no edge test succeeds, so a face passes the test
  of the flood fill exactly when the barycentric test finds the stroke centre in its
  projected triangle: every face a radius-0 run marks contains the centre, and a run
  whose seed does not contain it marks nothing and leaves the recorder as it was. A seed
  that contains the centre is marked and recorded; the marked faces are chained to the
  seed, and the recorder gains exactly the marked faces.
\<close>

theorem radius_zero_fill:
  assumes "stroke_ready tm" "onStrokePainted (seed # others) c 0 tm = Some (Inr tm')"
  shows "(\<forall>x\<in>visited tm'. contains_center tm c x)
    \<and> (\<not> contains_center tm c seed \<longrightarrow> visited tm' = {} \<and> recorder tm' = recorder tm)
    \<and> (contains_center tm c seed \<longrightarrow> seed \<in> visited tm' \<and> contains (recorder tm') seed)
    \<and> (\<forall>x\<in>visited tm'. connected_from tm c 0 (visited tm') seed x)
    \<and> members (recorder tm') = members (recorder tm) \<union> (\<lambda>f. Some (nat f)) ` visited tm'"
proof (intro conjI ballI impI)
  note run = onStrokePainted_run[OF assms]
  show "members (recorder tm') = members (recorder tm) \<union> (\<lambda>f. Some (nat f)) ` visited tm'"
    by (rule run(2))
  {
    fix x assume "x \<in> visited tm'"
    then show "connected_from tm c 0 (visited tm') seed x" using run(1) by blast
  }
  {
    fix x assume "x \<in> visited tm'"
    then have "chain (face_intersects tm c 0) (fill_step tm) (visited tm') seed x"
      using run(1) by (simp add: connected_from_def)
    then have "face_intersects tm c 0 x" by (rule chain_last[THEN conjunct2])
    then show "contains_center tm c x" by (simp add: face_intersects_zero)
  }
  {
    assume "\<not> contains_center tm c seed"
    then have miss: "\<not> face_intersects tm c 0 seed" by (simp add: face_intersects_zero)
    show "visited tm' = {}" using run(4)[OF miss] by (rule conjunct1)
    show "recorder tm' = recorder tm" using run(4)[OF miss] by (rule conjunct2)
  }
  {
    assume "contains_center tm c seed"
    then have hit: "face_intersects tm c 0 seed" by (simp add: face_intersects_zero)
    show s: "seed \<in> visited tm'" using run(5)[OF hit] .
    have m: "Some (nat seed) \<in> members (recorder tm')" unfolding run(2) using s by blast
    have "0 \<le> seed" using face_intersects_range[OF hit] by simp
    then show "contains (recorder tm') seed" using members_contains[OF run(3) m] by simp
  }
qed

lemma square_dotted_run:
  "onStrokePainted [0] (90, 40) 0 (square_drawn (0, 0, 1)) = Some (Inr square_dotted)"
  by (simp add: eval_defs square_defs square_dotted_def numeral_2_eq_2)

theorem radius_zero_fill_witness:
  "onStrokePainted [0] (90, 40) 0 (square_drawn (0, 0, 1)) = Some (Inr square_dotted)
   \<and> contains_center (square_drawn (0, 0, 1)) (90, 40) 0
   \<and> 0 \<in> visited square_dotted
   \<and> \<not> contains_center (square_drawn (0, 0, 1)) (90, 40) 1
   \<and> 1 \<notin> visited square_dotted"
proof -
  have v: "0 \<in> visited square_dotted"
    by (simp add: visited_def ta_get_def square_dotted_def)
  have n: "\<not> contains_center (square_drawn (0, 0, 1)) (90, 40) 1"
    by (simp add: contains_center_def eval_defs square_defs)
  show ?thesis
    using radius_zero_fill[OF ready_square_drawn square_dotted_run] square_dotted_run v n
    by blast
qed

text \<open>C1 as stated fails: a radius-0 stroke whose centre lies inside the seed's projected
  triangle marks the seed and records it.\<close>

theorem radius_zero_counterexample:
  "onStrokePainted [0] (90, 40) 0 (square_drawn (0, 0, 1)) = Some (Inr square_dotted)
   \<and> isFloodFill square_dotted = [1, 0]
   \<and> forEach_args (recorder square_dotted) = [Some 0]
   \<and> contains (recorder square_dotted) 0"
  by (simp add: square_dotted_run)
    (simp add: square_dotted_def forEach_args_def contains_def ta_get_def)

section \<open>Degenerate triangles and invalid face ids\<close>

lemma binade_bracket:
  "lo < hi \<Longrightarrow> pow2 lo \<le> x \<Longrightarrow> x < pow2 hi
     \<Longrightarrow> pow2 (binade lo hi x) \<le> x \<and> x < pow2 (binade lo hi x + 1)"
proof (induction lo hi x rule: binade.induct)
  case (1 lo hi x)
  show ?case
  proof (cases "hi \<le> lo + 1")
    case True
    then have "hi = lo + 1" using "1.prems"(1) by simp
    then show ?thesis using "1.prems" by (simp add: binade.simps)
  next
    case False
    then have mid: "lo < (lo + hi) div 2" "(lo + hi) div 2 < hi" by linarith+
    show ?thesis
    proof (cases "pow2 ((lo + hi) div 2) \<le> x")
      case True
      then show ?thesis
        using "1.IH"(1)[OF False True mid(2) True "1.prems"(3)] False
        by (subst (1 2) binade.simps) simp
    next
      case up: False
      then show ?thesis
        using "1.IH"(2)[OF False up mid(1) "1.prems"(2)] False
        by (subst (1 2) binade.simps) simp
    qed
  qed
qed

lemma nearest_even_near: "\<bar>of_int (nearest_even y) - y\<bar> \<le> 1 / 2"
  unfolding nearest_even_def Let_def by (auto simp: abs_if) linarith+

lemma pow2_pos: "0 < pow2 k"
  by (simp add: pow2_def)

lemma nearest_even_tie:
  "y - of_int \<lfloor>y\<rfloor> = 1 / 2 \<Longrightarrow> even (nearest_even y)"
  by (simp add: nearest_even_def Let_def)

lemma exponent_bracket:
  assumes "pow2 (- 1022) \<le> x" "x < pow2 1024"
  shows "pow2 (exponent x) \<le> x \<and> x < pow2 (exponent x + 1)"
  unfolding exponent_def using binade_bracket[OF _ assms] by simp

lemma scale_near:
  fixes m a p :: real
  assumes "0 < p" "\<bar>m - a / p\<bar> \<le> 1 / 2"
  shows "\<bar>m * p - a\<bar> \<le> p / 2"
proof -
  have "m * p - a = (m - a / p) * p" using assms(1) by (simp add: field_simps)
  then have "\<bar>m * p - a\<bar> = \<bar>m - a / p\<bar> * p" using assms(1) by (simp add: abs_mult)
  also have "\<dots> \<le> 1 / 2 * p" using assms by (intro mult_right_mono) simp_all
  finally show ?thesis by simp
qed

lemma round_double_nearest:
  assumes "round_double x = Finite y"
  shows "\<exists>m. \<bar>y\<bar> = of_int m * pow2 (exponent \<bar>x\<bar> - 52)
     \<and> \<bar>y - x\<bar> \<le> pow2 (exponent \<bar>x\<bar> - 52) / 2"
proof (cases "x = 0")
  case True
  then show ?thesis using assms pow2_pos[of "exponent \<bar>x\<bar> - 52"]
    by (intro exI[of _ 0]) (simp add: round_double_def)
next
  case False
  define p where "p = pow2 (exponent \<bar>x\<bar> - 52)"
  define m where "m = nearest_even (\<bar>x\<bar> / p)"
  have p: "0 < p" unfolding p_def by (rule pow2_pos)
  have y: "y = (if 0 < x then of_int m * p else - (of_int m * p))"
    using assms False by (simp add: round_double_def Let_def m_def p_def split: if_splits)
  have "0 \<le> \<bar>x\<bar> / p" using p by simp
  then have "0 \<le> \<lfloor>\<bar>x\<bar> / p\<rfloor>" by simp
  then have m0: "0 \<le> m" unfolding m_def nearest_even_def Let_def by simp
  have near: "\<bar>of_int m * p - \<bar>x\<bar>\<bar> \<le> p / 2"
    unfolding m_def using scale_near[OF p nearest_even_near] .
  have mp: "0 \<le> of_int m * p" using m0 p by simp
  have "\<bar>y\<bar> = of_int m * p" using y mp by (simp split: if_splits)
  moreover have "\<bar>y - x\<bar> \<le> p / 2"
  proof (cases "0 < x")
    case True
    then show ?thesis using near y by simp
  next
    case neg: False
    then have "y - x = - (of_int m * p - \<bar>x\<bar>)" using y by simp
    then have "\<bar>y - x\<bar> = \<bar>of_int m * p - \<bar>x\<bar>\<bar>" by (simp only: abs_minus_cancel)
    then show ?thesis using near by simp
  qed
  ultimately show ?thesis unfolding p_def by blast
qed

lemma round_double_zero: "round_double 0 = Finite 0"
  by (simp add: round_double_def)

lemma times_zero: "times_double x (Finite 0) = (if is_finite x then Finite 0 else NaN)"
  by (cases x) (simp_all add: round_double_zero)

lemma divide_one: "divide_double (Finite 1) b = None \<longleftrightarrow> b = Finite 0"
  by (cases b) simp_all

lemma coordinates_zero:
  "coordinates_test (times_double nu (Finite 0), times_double nv (Finite 0)) =
     (is_finite nu \<and> is_finite nv)"
  by (cases nu; cases nv) (simp_all add: round_double_zero)

lemma pointInTriangle_double_staged:
  "pointInTriangle_double pt t0 t1 t2 =
     barycentric_test (barycentric_terms (dot_products (edge_vectors pt t0 t1 t2)))"
  by (cases pt; cases t0; cases t1; cases t2)
     (simp add: pointInTriangle_double_def Let_def split: option.splits)

lemma computed_denominator_staged:
  "computed_denominator t0 t1 t2 =
     fst (barycentric_terms (dot_products (edge_vectors pt t0 t1 t2)))"
  by (cases pt; cases t0; cases t1; cases t2)
     (simp add: computed_denominator_def Let_def)

lemma computed_numerators_staged:
  "computed_numerators pt t0 t1 t2 =
     snd (barycentric_terms (dot_products (edge_vectors pt t0 t1 t2)))"
  by (cases pt; cases t0; cases t1; cases t2)
     (simp add: computed_numerators_def Let_def)

lemmas double_defs = round_double_def exponent_def binade.simps nearest_even_def pow2_def
  minus_double_def

lemmas double_eval = pointInTriangle_double_staged computed_numerators_staged
  computed_denominator_staged [where pt = "(Finite 0, Finite 0)"] double_defs

text \<open>Some values of the rounding: the double of 0.1; the largest double and the least
  number that rounds to an infinity; ties below the least positive double and at 54
  bits, which go to the even neighbour.\<close>

lemma round_double_examples:
  "round_double (1 / 10) = Finite (3602879701896397 / 2 ^ 55)"
  "round_double (2 ^ 1024 - 2 ^ 970 - 1) = Finite (2 ^ 1024 - 2 ^ 971)"
  "round_double (2 ^ 1024 - 2 ^ 970) = Infinity True"
  "round_double (- (2 ^ 1024)) = Infinity False"
  "round_double (1 / 2 ^ 1075) = Finite 0"
  "round_double (3 / 2 ^ 1075) = Finite (1 / 2 ^ 1073)"
  "round_double (2 ^ 53 + 1) = Finite (2 ^ 53)"
  "round_double (2 ^ 53 + 3) = Finite (2 ^ 53 + 4)"
  by (simp_all add: double_defs)

text \<open>
  C3, as the code has it. The containment test never divides by zero: when the
  denominator it computes is zero, the inverse is taken to be 0. Each barycentric
  coordinate is then its numerator times 0, which is 0 for a finite numerator and NaN
  otherwise: the test reports containment for every query point whose numerators are
  finite, and no containment when a numerator has overflowed.
\<close>

theorem pointInTriangle_degenerate:
  "pointInTriangle_double pt t0 t1 t2 \<noteq> None
   \<and> (computed_denominator t0 t1 t2 = Finite 0 \<longrightarrow>
        pointInTriangle_double pt t0 t1 t2 =
          Some (is_finite (fst (computed_numerators pt t0 t1 t2))
                \<and> is_finite (snd (computed_numerators pt t0 t1 t2))))"
proof (intro conjI impI)
  show "pointInTriangle_double pt t0 t1 t2 \<noteq> None"
    by (simp add: pointInTriangle_double_def Let_def divide_one split: option.splits)
next
  assume zero: "computed_denominator t0 t1 t2 = Finite 0"
  obtain b nu nv where
    terms: "barycentric_terms (dot_products (edge_vectors pt t0 t1 t2)) = (b, nu, nv)"
    by (cases "barycentric_terms (dot_products (edge_vectors pt t0 t1 t2))") auto
  have "b = Finite 0"
    using zero unfolding computed_denominator_staged[of t0 t1 t2 pt] terms by simp
  then have "pointInTriangle_double pt t0 t1 t2 = Some (is_finite nu \<and> is_finite nv)"
    unfolding pointInTriangle_double_staged terms
    by (simp add: coordinates_zero del: coordinates_test.simps)
  then show "pointInTriangle_double pt t0 t1 t2 =
          Some (is_finite (fst (computed_numerators pt t0 t1 t2))
                \<and> is_finite (snd (computed_numerators pt t0 t1 t2)))"
    unfolding computed_numerators_staged terms by simp
qed

text \<open>A triangle of positive area whose denominator underflows to zero: the test
  reports that it contains the far point (7, 3).\<close>

theorem pointInTriangle_degenerate_witness:
  "computed_denominator (Finite 0, Finite 0) (Finite (1 / 2 ^ 600), Finite 0)
       (Finite 0, Finite (1 / 2 ^ 600)) = Finite 0
   \<and> pointInTriangle_double (Finite 7, Finite 3) (Finite 0, Finite 0)
       (Finite (1 / 2 ^ 600), Finite 0) (Finite 0, Finite (1 / 2 ^ 600)) = Some True"
  using pointInTriangle_degenerate[of "(Finite 7, Finite 3)" "(Finite 0, Finite 0)"
      "(Finite (1 / 2 ^ 600), Finite 0)" "(Finite 0, Finite (1 / 2 ^ 600))"]
  by (simp add: computed_numerators_staged
      computed_denominator_staged [where pt = "(Finite 0, Finite 0)"] double_defs)

text \<open>C3 as stated fails: the corners (0, 0), (1, 1), (2, 2) lie on a line, the
  denominator computed is zero, and the test reports that the far point (7, 3) is
  contained.\<close>

theorem pointInTriangle_counterexample:
  "computed_denominator (Finite 0, Finite 0) (Finite 1, Finite 1) (Finite 2, Finite 2) = Finite 0
   \<and> pointInTriangle_double (Finite 7, Finite 3)
        (Finite 0, Finite 0) (Finite 1, Finite 1) (Finite 2, Finite 2) = Some True"
  by (simp add: double_eval)

text \<open>
  A zero denominator and a zero area are not the same thing in double precision. The
  doubles of 0.1, 0.2 and 0.4 give three corners on a line, and the denominator
  computed for them is \<open>2 ^ -61\<close>: the test is the ordinary one and answers no for the
  point (7, 3).
\<close>

lemma pointInTriangle_collinear_rounded:
  "computed_denominator (round_double (1 / 10), round_double (1 / 10))
       (round_double (2 / 10), round_double (2 / 10))
       (round_double (4 / 10), round_double (4 / 10)) = Finite (1 / 2 ^ 61)
   \<and> pointInTriangle_double (Finite 7, Finite 3)
       (round_double (1 / 10), round_double (1 / 10))
       (round_double (2 / 10), round_double (2 / 10))
       (round_double (4 / 10), round_double (4 / 10)) = Some False"
  by (simp add: double_eval)

text \<open>With a zero denominator and a numerator that overflows, the coordinate is NaN and
  the test answers no.\<close>

lemma pointInTriangle_overflow:
  "computed_denominator (Finite 0, Finite 0) (Finite 0, Finite (2 ^ 500))
       (Finite (1 / 2 ^ 600), Finite 0) = Finite 0
   \<and> computed_numerators (Finite (2 ^ 700), Finite 0) (Finite 0, Finite 0)
       (Finite 0, Finite (2 ^ 500)) (Finite (1 / 2 ^ 600), Finite 0) = (Infinity True, Finite 0)
   \<and> pointInTriangle_double (Finite (2 ^ 700), Finite 0) (Finite 0, Finite 0)
       (Finite 0, Finite (2 ^ 500)) (Finite (1 / 2 ^ 600), Finite 0) = Some False"
  by (simp add: double_eval)

text \<open>
  On the square of the examples the test in double precision gives the answers of the
  test over the reals: the pixel (90, 40) is found in the triangle of face 0 and not in
  the triangle of face 1.
\<close>

lemma pointInTriangle_square:
  "pointInTriangle_double (Finite 90, Finite 40)
       (Finite 50, Finite 50) (Finite 100, Finite 50) (Finite 100, Finite 0) = Some True
   \<and> pointInTriangle (90, 40) (50, 50) (100, 50) (100, 0) = Some True
   \<and> pointInTriangle_double (Finite 90, Finite 40)
       (Finite 50, Finite 50) (Finite 100, Finite 0) (Finite 50, Finite 0) = Some False
   \<and> pointInTriangle (90, 40) (50, 50) (100, 0) (50, 0) = Some False"
  by (simp add: double_eval pointInTriangle_def js_div_def Let_def)

lemma add_invalid_list:
  assumes "f < 0 \<or> int (length (isFaceAffected r)) \<le> f"
  shows "affectedFaces (add f r) =
      (if nAffectedFaces r < length (affectedFaces r)
       then (affectedFaces r)[nAffectedFaces r := nat (f mod 2 ^ 32)] else affectedFaces r)"
  using assms by (auto simp: add_def ta_get_def ta_set_def)

lemma add_invalid_forEach:
  assumes "f < 0 \<or> int (length (isFaceAffected r)) \<le> f"
  shows "forEach_args (add f r) =
      forEach_args r @ [if nAffectedFaces r < length (affectedFaces r)
                        then Some (nat (f mod 2 ^ 32)) else None]"
proof -
  have n: "nAffectedFaces (add f r) = Suc (nAffectedFaces r)"
    using assms by (auto simp: add_def ta_get_def)
  have old: "ta_get (affectedFaces (add f r)) (int i) = ta_get (affectedFaces r) (int i)"
    if "i < nAffectedFaces r" for i
    using that unfolding add_invalid_list[OF assms] by (simp add: ta_get_def)
  have new: "ta_get (affectedFaces (add f r)) (int (nAffectedFaces r)) =
      (if nAffectedFaces r < length (affectedFaces r) then Some (nat (f mod 2 ^ 32)) else None)"
    unfolding add_invalid_list[OF assms] by (simp add: ta_get_def)
  show ?thesis unfolding forEach_args_def n using old new by simp
qed

text \<open>
  C4, as the code has it. No operation checks a face id against the number of faces and
  there is no error for an invalid id. For an id outside the recorder's arrays,
  \<open>contains\<close> answers no, and \<open>add\<close> counts the id as a new member each time it is
  called while its membership flag stays unset; the id is stored modulo \<open>2 ^ 32\<close> at the
  next place of the list, or not at all once the count has reached the length of the
  list, and \<open>forEach\<close> then passes that entry, or \<^verbatim>\<open>undefined\<close>. The flood fill returns the state
  unchanged for a negative id, and for an unmarked id at or past the end of the drawing
  UVs it fails with the type error of reading a property of \<open>undefined\<close>.
\<close>

theorem face_id_unchecked:
  assumes "f < 0 \<or> int (length (isFaceAffected r)) \<le> f"
  shows "\<not> contains r f
    \<and> nAffectedFaces (add f r) = nAffectedFaces r + 1
    \<and> isFaceAffected (add f r) = isFaceAffected r
    \<and> \<not> contains (add f r) f
    \<and> (f < 0 \<longrightarrow> add_recursive (Suc d) f c rad tm = Some (Inr tm))
    \<and> (int (length (isFloodFill tm)) \<le> f \<and> int (length (drawingTextureUvs tm)) \<le> f \<longrightarrow>
         add_recursive (Suc d) f c rad tm = Some (Inl TypeError))
    \<and> affectedFaces (add f r) =
          (if nAffectedFaces r < length (affectedFaces r)
           then (affectedFaces r)[nAffectedFaces r := nat (f mod 2 ^ 32)] else affectedFaces r)
    \<and> forEach_args (add f r) =
          forEach_args r @ [if nAffectedFaces r < length (affectedFaces r)
                            then Some (nat (f mod 2 ^ 32)) else None]"
proof -
  have "\<not> contains r f
    \<and> nAffectedFaces (add f r) = nAffectedFaces r + 1
    \<and> isFaceAffected (add f r) = isFaceAffected r
    \<and> \<not> contains (add f r) f
    \<and> (f < 0 \<longrightarrow> add_recursive (Suc d) f c rad tm = Some (Inr tm))
    \<and> (int (length (isFloodFill tm)) \<le> f \<and> int (length (drawingTextureUvs tm)) \<le> f \<longrightarrow>
         add_recursive (Suc d) f c rad tm = Some (Inl TypeError))"
    using assms
    by (auto simp: contains_def add_def ta_get_def ta_set_def arr_get_def)
  then show ?thesis
    using add_invalid_list[OF assms] add_invalid_forEach[OF assms] by blast
qed

theorem face_id_unchecked_witness:
  "\<not> contains (new_AffectedFacesRecorder 2) 5
   \<and> nAffectedFaces (add 5 (new_AffectedFacesRecorder 2)) = 1
   \<and> add_recursive 3 (- 1) (90, 40) 100 (square_drawn (0, 0, 1)) = Some (Inr (square_drawn (0, 0, 1)))
   \<and> add_recursive 3 2 (90, 40) 100 (square_drawn (0, 0, 1)) = Some (Inl TypeError)
   \<and> forEach_args (add (- 1) (new_AffectedFacesRecorder 2)) = [Some 4294967295]
   \<and> forEach_args (add 5 (add 5 (add 5 (new_AffectedFacesRecorder 2)))) = [Some 5, Some 5, None]"
proof -
  let ?r = "new_AffectedFacesRecorder 2"
  let ?full = "add 5 (add 5 ?r)"
  have len: "length (isFaceAffected ?r) = 2"
    "nAffectedFaces ?r = 0" "length (affectedFaces ?r) = 2" "forEach_args ?r = []"
    "length (isFloodFill (square_drawn (0, 0, 1))) = 2"
    "length (drawingTextureUvs (square_drawn (0, 0, 1))) = 2"
    by (simp_all add: new_AffectedFacesRecorder_def forEach_args_def square_defs)
  have full: "length (isFaceAffected ?full) = 2" "nAffectedFaces ?full = 2"
    "length (affectedFaces ?full) = 2" "forEach_args ?full = [Some 5, Some 5]"
    by (simp_all add: new_AffectedFacesRecorder_def forEach_args_def add_def ta_get_def ta_set_def
        numeral_2_eq_2)
  have three: "(3::nat) = Suc 2" by simp
  have a: "\<not> contains ?r 5" "nAffectedFaces (add 5 ?r) = 1"
    using face_id_unchecked[of 5 ?r 2 "(90, 40)" 100 "square_drawn (0, 0, 1)"]
    by (simp_all add: len)
  have b: "add_recursive 3 (- 1) (90, 40) 100 (square_drawn (0, 0, 1)) = Some (Inr (square_drawn (0, 0, 1)))"
    "forEach_args (add (- 1) ?r) = [Some 4294967295]"
    using face_id_unchecked[of "- 1" ?r 2 "(90, 40)" 100 "square_drawn (0, 0, 1)"]
    unfolding three by (simp_all add: len)
  have c: "add_recursive 3 2 (90, 40) 100 (square_drawn (0, 0, 1)) = Some (Inl TypeError)"
    using face_id_unchecked[of 2 ?r 2 "(90, 40)" 100 "square_drawn (0, 0, 1)"]
    unfolding three by (simp add: len)
  have d: "forEach_args (add 5 ?full) = [Some 5, Some 5, None]"
    using face_id_unchecked[of 5 ?full 2 "(90, 40)" 100 "square_drawn (0, 0, 1)"]
    by (simp add: full)
  show ?thesis using a b c d by simp
qed

text \<open>C4 as stated fails: on a recorder for two faces, adding the face id 5 twice is
  accepted twice, and a flood fill entered with the face id -1 returns normally.\<close>

theorem face_id_counterexample:
  "add 5 (add 5 (new_AffectedFacesRecorder 2)) =
     \<lparr> nAffectedFaces = 2, affectedFaces = [5, 5], isFaceAffected = [0, 0],
       isFaceAffectedEmpty = [0, 0] \<rparr>
   \<and> onStrokePainted [- 1] (90, 40) 100 (square_drawn (0, 0, 1)) =
       Some (Inr (square_drawn (0, 0, 1)))"
  by (simp add: new_AffectedFacesRecorder_def eval_defs square_defs numeral_2_eq_2)

section \<open>The samples of one stroke\<close>

lemma stroke_ready_outside:
  "stroke_ready (tm \<lparr> camera_position := p, drawingCanvas := cv \<rparr>) = stroke_ready tm"
  by (simp add: stroke_ready_def fill_inv_def covered_def)

lemma onStrokePainted_members:
  assumes "stroke_ready tm" "onStrokePainted hits c r tm = Some (Inr tm')"
  shows "members (recorder tm) \<subseteq> members (recorder tm')"
proof (cases hits)
  case Nil
  then show ?thesis using assms(2) by (simp add: onStrokePainted_def)
next
  case (Cons seed others)
  show ?thesis using onStrokePainted_run(2)[OF assms(1) assms(2)[unfolded Cons]] by blast
qed

lemma paint_sample_grows:
  assumes "stroke_ready (textureManager c)" "paint_sample out pos c = Some (Inr c')"
  shows "stroke_ready (textureManager c')"
    and "members (recorder (textureManager c)) \<subseteq> members (recorder (textureManager c'))"
    and "state c' = state c"
proof -
  let ?tm1 = "(textureManager c) \<lparr> camera_position := camera_at out,
                  drawingCanvas := brush_paint out (drawingCanvas (textureManager c)) \<rparr>"
  from assms(2) obtain tm2 where
    run: "onStrokePainted (castRay out) pos (brush_radius out) ?tm1 = Some (Inr tm2)"
    and c': "c' = c \<lparr> textureManager := tm2 \<rparr>"
    by (auto simp: paint_sample_def Let_def split: option.splits sum.splits)
  have r1: "stroke_ready ?tm1" using assms(1) by (simp only: stroke_ready_outside)
  show "stroke_ready (textureManager c')"
    using onStrokePainted_ready[OF r1 run] by (simp add: c')
  show "members (recorder (textureManager c)) \<subseteq> members (recorder (textureManager c'))"
    using onStrokePainted_members[OF r1 run] by (simp add: c')
  show "state c' = state c" by (simp add: c')
qed

lemma stroke_moves_grows:
  "state c = Draw \<Longrightarrow> stroke_ready (textureManager c) \<Longrightarrow> stroke_moves evs c = Some (Inr c')
     \<Longrightarrow> members (recorder (textureManager c)) \<subseteq> members (recorder (textureManager c'))"
proof (induction evs arbitrary: c)
  case Nil
  then show ?case by simp
next
  case (Cons ev evs)
  from Cons.prems(3) obtain c1 where
    m: "mousemove (fst ev) (snd ev) c = Some (Inr c1)" and rest: "stroke_moves evs c1 = Some (Inr c')"
    by (auto split: option.splits sum.splits)
  have p: "paint_sample (fst ev) (snd ev) c = Some (Inr c1)"
    using m Cons.prems(1) by (simp add: mousemove_def)
  note g = paint_sample_grows[OF Cons.prems(2) p]
  have "members (recorder (textureManager c1)) \<subseteq> members (recorder (textureManager c'))"
    using Cons.IH[OF _ g(1) rest] g(3) Cons.prems(1) by simp
  then show ?case using g(2) by blast
qed

lemma onStrokePainted_forgets:
  assumes "stroke_ready tm" "length b = length (isFloodFill tm)"
  shows "onStrokePainted (seed # others) c r (tm \<lparr> isFloodFill := b \<rparr>) =
         onStrokePainted (seed # others) c r tm"
proof -
  have "stroke_ready (tm \<lparr> isFloodFill := b \<rparr>)"
    using assms by (simp add: stroke_ready_def fill_inv_def covered_def)
  from onStrokePainted_hit[OF this] onStrokePainted_hit[OF assms(1)] assms(2)
  show ?thesis by simp
qed

lemma prepareDrawingTexture_bitmap:
  "prepareDrawingTexture rd pr (tm \<lparr> isFloodFill := b \<rparr>) =
     (case prepareDrawingTexture rd pr tm of
        Inl e \<Rightarrow> Inl e
      | Inr tm' \<Rightarrow> Inr (tm' \<lparr> isFloodFill := b \<rparr>))"
  by (simp add: prepareDrawingTexture_def Let_def split: sum.splits)

lemma prepareDrawingTexture_keeps:
  assumes "prepareDrawingTexture rd pr tm = Inr tm'"
  shows "isFloodFill tm' = isFloodFill tm" "recorder tm' = recorder tm"
  using assms by (auto simp: prepareDrawingTexture_def Let_def split: if_splits sum.splits)

lemma paint_sample_forgets:
  assumes "stroke_ready (textureManager c)" "castRay out \<noteq> []"
    and "length b = length (isFloodFill (textureManager c))"
  shows "paint_sample out pos (c \<lparr> textureManager := (textureManager c) \<lparr> isFloodFill := b \<rparr> \<rparr>)
       = paint_sample out pos c"
proof -
  from assms(2) obtain seed others where cr: "castRay out = seed # others"
    by (cases "castRay out") auto
  let ?tm = "textureManager c"
  let ?upd = "\<lambda>t. t \<lparr> camera_position := camera_at out,
                        drawingCanvas := brush_paint out (drawingCanvas t) \<rparr>"
  have swap: "?upd (?tm \<lparr> isFloodFill := b \<rparr>) = (?upd ?tm) \<lparr> isFloodFill := b \<rparr>" by simp
  have "onStrokePainted (castRay out) pos (brush_radius out) (?upd (?tm \<lparr> isFloodFill := b \<rparr>))
      = onStrokePainted (castRay out) pos (brush_radius out) (?upd ?tm)"
    unfolding swap cr using assms(3,1)
    by (intro onStrokePainted_forgets) (simp_all only: stroke_ready_outside, simp)
  then show ?thesis
    by (simp add: paint_sample_def Let_def split: option.splits sum.splits)
qed

lemma paint_sample_tested:
  assumes "stroke_ready (textureManager c)" "castRay out \<noteq> []"
    and "paint_sample out pos c = Some (Inr c')"
  shows "\<forall>x\<in>visited (textureManager c').
           face_intersects (textureManager c') pos (brush_radius out) x"
proof
  fix x assume x: "x \<in> visited (textureManager c')"
  from assms(2) obtain seed others where cr: "castRay out = seed # others"
    by (cases "castRay out") auto
  let ?tm1 = "(textureManager c) \<lparr> camera_position := camera_at out,
                  drawingCanvas := brush_paint out (drawingCanvas (textureManager c)) \<rparr>"
  from assms(3) obtain tm2 where
    run: "onStrokePainted (seed # others) pos (brush_radius out) ?tm1 = Some (Inr tm2)"
    and c': "c' = c \<lparr> textureManager := tm2 \<rparr>"
    by (auto simp: paint_sample_def Let_def cr split: option.splits sum.splits)
  have r1: "stroke_ready ?tm1" using assms(1) by (simp only: stroke_ready_outside)
  have "chain (face_intersects ?tm1 pos (brush_radius out)) (fill_step ?tm1) (visited tm2) seed x"
    using onStrokePainted_run(1)[OF r1 run] x by (simp add: c' connected_from_def)
  then have "face_intersects ?tm1 pos (brush_radius out) x" by (rule chain_last[THEN conjunct2])
  moreover have "frame ?tm1 tm2"
  proof -
    have "frame (?tm1 \<lparr> isFloodFill := replicate (length (isFloodFill ?tm1)) 0 \<rparr>) tm2"
      using run unfolding onStrokePainted_hit[OF r1] by (rule add_recursive_frame)
    moreover have "frame ?tm1 (?tm1 \<lparr> isFloodFill := replicate (length (isFloodFill ?tm1)) 0 \<rparr>)"
      unfolding frame_def by (rule exI[of _ "replicate (length (isFloodFill ?tm1)) 0"],
        rule exI[of _ "recorder ?tm1"]) simp
    ultimately show ?thesis using frame_trans by blast
  qed
  ultimately show "face_intersects (textureManager c') pos (brush_radius out) x"
    by (simp add: c' frame_scene(1))
qed

lemma useDrawingTexture_ready:
  assumes "stroke_ready (textureManager c)" "useDrawingTexture out c = Inr c1"
  shows "stroke_ready (textureManager c1)" "recorder (textureManager c1) = recorder (textureManager c)"
    "isFloodFill (textureManager c1) = isFloodFill (textureManager c)" "state c1 = state c"
proof -
  show "stroke_ready (textureManager c1)"
    using assms prepareDrawingTexture_ready[OF assms(1)]
    by (auto simp: useDrawingTexture_def split: if_splits sum.splits)
  show "recorder (textureManager c1) = recorder (textureManager c)"
    using assms(2) prepareDrawingTexture_keeps(2)
    by (auto simp: useDrawingTexture_def split: if_splits sum.splits)
  show "isFloodFill (textureManager c1) = isFloodFill (textureManager c)"
    using assms(2) prepareDrawingTexture_keeps(1)
    by (auto simp: useDrawingTexture_def split: if_splits sum.splits)
  show "state c1 = state c"
    using assms(2) by (auto simp: useDrawingTexture_def split: if_splits sum.splits)
qed

lemma useDrawingTexture_bitmap:
  "useDrawingTexture out (c \<lparr> textureManager := (textureManager c) \<lparr> isFloodFill := b \<rparr> \<rparr>) =
     (case useDrawingTexture out c of
        Inl e \<Rightarrow> Inl e
      | Inr c1 \<Rightarrow> Inr (c1 \<lparr> textureManager := (textureManager c1) \<lparr> isFloodFill := b \<rparr> \<rparr>))"
  by (simp add: useDrawingTexture_def prepareDrawingTexture_bitmap split: sum.splits)

lemma mousedown_forgets:
  assumes "state c = Idle" "stroke_ready (textureManager c)" "castRay out \<noteq> []"
    and "length b = length (isFloodFill (textureManager c))"
  shows "mousedown out False pos (c \<lparr> textureManager := (textureManager c) \<lparr> isFloodFill := b \<rparr> \<rparr>)
       = mousedown out False pos c"
proof -
  let ?c = "c \<lparr> state := Draw \<rparr>"
  let ?cb = "c \<lparr> textureManager := (textureManager c) \<lparr> isFloodFill := b \<rparr> \<rparr>"
  have swap: "?cb \<lparr> state := Draw \<rparr>
      = ?c \<lparr> textureManager := (textureManager ?c) \<lparr> isFloodFill := b \<rparr> \<rparr>" by simp
  have down: "mousedown out False pos c =
      (case useDrawingTexture out ?c of Inl e \<Rightarrow> Some (Inl e) | Inr c1 \<Rightarrow> paint_sample out pos c1)"
    using assms(1) by (simp add: mousedown_def)
  have downb: "mousedown out False pos ?cb =
      (case useDrawingTexture out ?c of
         Inl e \<Rightarrow> Some (Inl e)
       | Inr c1 \<Rightarrow>
           paint_sample out pos (c1 \<lparr> textureManager := (textureManager c1) \<lparr> isFloodFill := b \<rparr> \<rparr>))"
  proof -
    have "mousedown out False pos ?cb =
      (case useDrawingTexture out (?cb \<lparr> state := Draw \<rparr>) of
         Inl e \<Rightarrow> Some (Inl e) | Inr c1 \<Rightarrow> paint_sample out pos c1)"
      using assms(1) by (simp add: mousedown_def)
    then show ?thesis
      unfolding swap useDrawingTexture_bitmap by (simp split: sum.splits)
  qed
  show ?thesis
  proof (cases "useDrawingTexture out ?c")
    case (Inl e)
    then show ?thesis unfolding down downb by simp
  next
    case (Inr c1)
    have rd: "stroke_ready (textureManager ?c)" using assms(2) by simp
    note u = useDrawingTexture_ready[OF rd Inr]
    have len: "length b = length (isFloodFill (textureManager c1))" using assms(4) u(3) by simp
    show ?thesis
      unfolding down downb Inr using paint_sample_forgets[OF u(1) assms(3) len, of pos] by simp
  qed
qed

lemma mousedown_tested:
  assumes "state c = Idle" "stroke_ready (textureManager c)" "castRay out \<noteq> []"
    and "mousedown out False pos c = Some (Inr c')"
  shows "state c' = Draw" "stroke_ready (textureManager c')"
    "members (recorder (textureManager c)) \<subseteq> members (recorder (textureManager c'))"
    "\<forall>x\<in>visited (textureManager c').
        face_intersects (textureManager c') pos (brush_radius out) x"
proof -
  from assms(1,4) obtain c1 where
    u: "useDrawingTexture out (c \<lparr> state := Draw \<rparr>) = Inr c1"
    and p: "paint_sample out pos c1 = Some (Inr c')"
    by (auto simp: mousedown_def split: sum.splits)
  have rd: "stroke_ready (textureManager (c \<lparr> state := Draw \<rparr>))" using assms(2) by simp
  note r = useDrawingTexture_ready[OF rd u]
  note g = paint_sample_grows[OF r(1) p]
  show "state c' = Draw" using g(3) r(4) by simp
  show "stroke_ready (textureManager c')" by (rule g(1))
  show "members (recorder (textureManager c)) \<subseteq> members (recorder (textureManager c'))"
    using g(2) r(2) by simp
  show "\<forall>x\<in>visited (textureManager c').
        face_intersects (textureManager c') pos (brush_radius out) x"
    by (rule paint_sample_tested[OF r(1) assms(3) p])
qed

text \<open>
  C2, as the code has it. The bitmap is cleared by every sample whose ray hits the mesh,
  not once per stroke: the outcome of such a sample does not depend on the marks the
  bitmap held before it, and every face marked after it passed the intersection test of
  this very sample. The recorder is not cleared by a sample, and over any sequence of
  mouse-move samples of a stroke the faces it holds only grow. The pointer-down sample
  that opens a stroke behaves in the same way, and leaves the controls drawing, ready for
  the mouse-move samples.
\<close>

theorem stroke_samples:
  assumes "state c = Draw" "stroke_ready (textureManager c)"
  shows "(\<forall>evs c'. stroke_moves evs c = Some (Inr c') \<longrightarrow>
            members (recorder (textureManager c)) \<subseteq> members (recorder (textureManager c')))
    \<and> (\<forall>out pos b. castRay out \<noteq> [] \<longrightarrow> length b = length (isFloodFill (textureManager c)) \<longrightarrow>
            mousemove out pos (c \<lparr> textureManager := (textureManager c) \<lparr> isFloodFill := b \<rparr> \<rparr>)
              = mousemove out pos c)
    \<and> (\<forall>out pos c'. castRay out \<noteq> [] \<longrightarrow> mousemove out pos c = Some (Inr c') \<longrightarrow>
            (\<forall>x\<in>visited (textureManager c').
               face_intersects (textureManager c') pos (brush_radius out) x))
    \<and> (\<forall>c0 out pos b. state c0 = Idle \<longrightarrow> stroke_ready (textureManager c0) \<longrightarrow>
            castRay out \<noteq> [] \<longrightarrow> length b = length (isFloodFill (textureManager c0)) \<longrightarrow>
            mousedown out False pos
                (c0 \<lparr> textureManager := (textureManager c0) \<lparr> isFloodFill := b \<rparr> \<rparr>)
              = mousedown out False pos c0)
    \<and> (\<forall>c0 out pos c'. state c0 = Idle \<longrightarrow> stroke_ready (textureManager c0) \<longrightarrow>
            castRay out \<noteq> [] \<longrightarrow> mousedown out False pos c0 = Some (Inr c') \<longrightarrow>
            state c' = Draw \<and> stroke_ready (textureManager c')
            \<and> members (recorder (textureManager c0)) \<subseteq> members (recorder (textureManager c'))
            \<and> (\<forall>x\<in>visited (textureManager c').
                  face_intersects (textureManager c') pos (brush_radius out) x))"
proof (intro conjI allI impI ballI)
  fix evs c'
  assume "stroke_moves evs c = Some (Inr c')"
  then show "members (recorder (textureManager c)) \<subseteq> members (recorder (textureManager c'))"
    using assms by (rule stroke_moves_grows[rotated 2])
next
  fix out :: Outside and pos :: Vector2 and b :: "nat list"
  assume hit: "castRay out \<noteq> []" and len: "length b = length (isFloodFill (textureManager c))"
  from hit obtain seed others where cr: "castRay out = seed # others" by (cases "castRay out") auto
  let ?tm = "textureManager c"
  let ?upd = "\<lambda>t. t \<lparr> camera_position := camera_at out,
                        drawingCanvas := brush_paint out (drawingCanvas t) \<rparr>"
  have swap: "?upd (?tm \<lparr> isFloodFill := b \<rparr>) = (?upd ?tm) \<lparr> isFloodFill := b \<rparr>" by simp
  have "onStrokePainted (castRay out) pos (brush_radius out) (?upd (?tm \<lparr> isFloodFill := b \<rparr>))
      = onStrokePainted (castRay out) pos (brush_radius out) (?upd ?tm)"
    unfolding swap cr using len assms(2)
    by (intro onStrokePainted_forgets) (simp_all only: stroke_ready_outside, simp)
  then show "mousemove out pos (c \<lparr> textureManager := ?tm \<lparr> isFloodFill := b \<rparr> \<rparr>) = mousemove out pos c"
    using assms(1) by (simp add: mousemove_def paint_sample_def Let_def split: option.splits sum.splits)
next
  fix out pos c' x
  assume hit: "castRay out \<noteq> []" and m: "mousemove out pos c = Some (Inr c')"
    and x: "x \<in> visited (textureManager c')"
  from hit obtain seed others where cr: "castRay out = seed # others" by (cases "castRay out") auto
  let ?tm1 = "(textureManager c) \<lparr> camera_position := camera_at out,
                  drawingCanvas := brush_paint out (drawingCanvas (textureManager c)) \<rparr>"
  from m assms(1) obtain tm2 where
    run: "onStrokePainted (seed # others) pos (brush_radius out) ?tm1 = Some (Inr tm2)"
    and c': "c' = c \<lparr> textureManager := tm2 \<rparr>"
    by (auto simp: mousemove_def paint_sample_def Let_def cr split: option.splits sum.splits)
  have r1: "stroke_ready ?tm1" using assms(2) by (simp only: stroke_ready_outside)
  have "chain (face_intersects ?tm1 pos (brush_radius out)) (fill_step ?tm1) (visited tm2) seed x"
    using onStrokePainted_run(1)[OF r1 run] x by (simp add: c' connected_from_def)
  then have "face_intersects ?tm1 pos (brush_radius out) x" by (rule chain_last[THEN conjunct2])
  moreover have "frame ?tm1 tm2"
  proof -
    have "frame (?tm1 \<lparr> isFloodFill := replicate (length (isFloodFill ?tm1)) 0 \<rparr>) tm2"
      using run unfolding onStrokePainted_hit[OF r1] by (rule add_recursive_frame)
    moreover have "frame ?tm1 (?tm1 \<lparr> isFloodFill := replicate (length (isFloodFill ?tm1)) 0 \<rparr>)"
      unfolding frame_def by (rule exI[of _ "replicate (length (isFloodFill ?tm1)) 0"],
        rule exI[of _ "recorder ?tm1"]) simp
    ultimately show ?thesis using frame_trans by blast
  qed
  ultimately show "face_intersects (textureManager c') pos (brush_radius out) x"
    by (simp add: c' frame_scene(1))
next
  fix c0 :: Controls and out :: Outside and pos :: Vector2 and b :: "nat list"
  assume "state c0 = Idle" "stroke_ready (textureManager c0)" "castRay out \<noteq> []"
    "length b = length (isFloodFill (textureManager c0))"
  then show "mousedown out False pos
        (c0 \<lparr> textureManager := (textureManager c0) \<lparr> isFloodFill := b \<rparr> \<rparr>)
      = mousedown out False pos c0"
    by (rule mousedown_forgets)
next
  fix c0 :: Controls and out :: Outside and pos :: Vector2 and c' :: Controls
  assume down: "state c0 = Idle" "stroke_ready (textureManager c0)" "castRay out \<noteq> []"
    "mousedown out False pos c0 = Some (Inr c')"
  note t = mousedown_tested[OF down]
  show "state c' = Draw" by (rule t(1))
  show "stroke_ready (textureManager c')" by (rule t(2))
  show "members (recorder (textureManager c0)) \<subseteq> members (recorder (textureManager c'))"
    by (rule t(3))
  fix x assume "x \<in> visited (textureManager c')"
  then show "face_intersects (textureManager c') pos (brush_radius out) x" using t(4) by blast
qed

lemma square_press:
  "mousedown (pointer_at [0]) False (90, 40) square_controls = Some (Inr square_pressed)"
proof -
  have "useDrawingTexture (pointer_at [0]) (square_controls \<lparr> state := Draw \<rparr>) =
      Inr \<lparr> state = Draw, usingViewingTexture = False, textureManager = square_drawn (0, 0, 1),
            mesh_material = DrawingMaterial \<rparr>"
    by (simp add: useDrawingTexture_def square_controls_def pointer_at_def draw_square)
  moreover have "paint_sample (pointer_at [0]) (90, 40)
      \<lparr> state = Draw, usingViewingTexture = False, textureManager = square_drawn (0, 0, 1),
        mesh_material = DrawingMaterial \<rparr> = Some (Inr square_pressed)"
    by (simp add: paint_sample_def pointer_at_def square_pressed_def eval_defs square_defs
        square_dotted_def numeral_2_eq_2)
  ultimately show ?thesis by (simp add: mousedown_def square_controls_def)
qed

lemma square_move:
  "mousemove (pointer_at [1]) (60, 10) square_pressed = Some (Inr square_moved)"
  by (simp add: mousemove_def paint_sample_def pointer_at_def square_pressed_def square_moved_def
      eval_defs square_defs square_dotted_def numeral_2_eq_2)

theorem stroke_samples_witness:
  "state square_pressed = Draw
   \<and> stroke_moves [(pointer_at [1], (60, 10))] square_pressed = Some (Inr square_moved)
   \<and> members (recorder (textureManager square_pressed))
       \<subseteq> members (recorder (textureManager square_moved))
   \<and> mousemove (pointer_at [1]) (60, 10)
         (square_pressed \<lparr> textureManager := (textureManager square_pressed) \<lparr> isFloodFill := [0, 0] \<rparr> \<rparr>)
       = mousemove (pointer_at [1]) (60, 10) square_pressed
   \<and> 1 \<in> visited (textureManager square_moved)
   \<and> face_intersects (textureManager square_moved) (60, 10) (brush_radius (pointer_at [1])) 1
   \<and> state square_controls = Idle
   \<and> mousedown (pointer_at [0]) False (90, 40) square_controls = Some (Inr square_pressed)
   \<and> mousedown (pointer_at [0]) False (90, 40)
         (square_controls \<lparr> textureManager := (textureManager square_controls) \<lparr> isFloodFill := [1, 1] \<rparr> \<rparr>)
       = mousedown (pointer_at [0]) False (90, 40) square_controls
   \<and> 0 \<in> visited (textureManager square_pressed)
   \<and> face_intersects (textureManager square_pressed) (90, 40) (brush_radius (pointer_at [0])) 0"
proof -
  have d: "state square_pressed = Draw" by (simp add: square_pressed_def)
  have "stroke_ready square_dotted"
    using onStrokePainted_ready[OF ready_square_drawn square_dotted_run] .
  then have r: "stroke_ready (textureManager square_pressed)" by (simp add: square_pressed_def)
  have moves: "stroke_moves [(pointer_at [1], (60, 10))] square_pressed = Some (Inr square_moved)"
    by (simp add: square_move)
  have hit: "castRay (pointer_at [1]) \<noteq> []" by (simp add: pointer_at_def)
  have len: "length [0, 0 :: nat] = length (isFloodFill (textureManager square_pressed))"
    by (simp add: square_pressed_def square_dotted_def)
  have v: "1 \<in> visited (textureManager square_moved)"
    by (simp add: visited_def ta_get_def square_moved_def)
  have i: "state square_controls = Idle" by (simp add: square_controls_def)
  have "stroke_ready (square_tm (0, 0, 1))"
    using new_ready[OF new_square] by (simp add: square_def)
  then have r0: "stroke_ready (textureManager square_controls)"
    by (simp add: square_controls_def)
  have hit0: "castRay (pointer_at [0]) \<noteq> []" by (simp add: pointer_at_def)
  have len0: "length [1, 1 :: nat] = length (isFloodFill (textureManager square_controls))"
    by (simp add: square_controls_def square_tm_def)
  have v0: "0 \<in> visited (textureManager square_pressed)"
    by (simp add: visited_def ta_get_def square_pressed_def square_dotted_def)
  note s = stroke_samples[OF d r]
  have grows: "members (recorder (textureManager square_pressed))
       \<subseteq> members (recorder (textureManager square_moved))"
    using s moves by blast
  have same: "mousemove (pointer_at [1]) (60, 10)
         (square_pressed \<lparr> textureManager := (textureManager square_pressed) \<lparr> isFloodFill := [0, 0] \<rparr> \<rparr>)
       = mousemove (pointer_at [1]) (60, 10) square_pressed"
    using s hit len by blast
  have tested: "face_intersects (textureManager square_moved) (60, 10) (brush_radius (pointer_at [1])) 1"
    using s hit square_move v by blast
  have same0: "mousedown (pointer_at [0]) False (90, 40)
         (square_controls \<lparr> textureManager := (textureManager square_controls) \<lparr> isFloodFill := [1, 1] \<rparr> \<rparr>)
       = mousedown (pointer_at [0]) False (90, 40) square_controls"
    using s i r0 hit0 len0 by blast
  have tested0: "face_intersects (textureManager square_pressed) (90, 40) (brush_radius (pointer_at [0])) 0"
    using s i r0 hit0 square_press v0 by blast
  show ?thesis
    using d moves grows same v tested i square_press same0 v0 tested0 by blast
qed

text \<open>C2 as stated fails: the mark that the pointer-down sample left on face 0 is gone
  after the first mouse-move sample of the same stroke, which hit face 1; the bitmap was
  cleared again in between.\<close>

theorem stroke_samples_counterexample:
  "mousedown (pointer_at [0]) False (90, 40) square_controls = Some (Inr square_pressed)
   \<and> mousemove (pointer_at [1]) (60, 10) square_pressed = Some (Inr square_moved)
   \<and> isFloodFill (textureManager square_pressed) = [1, 0]
   \<and> isFloodFill (textureManager square_moved) = [0, 1]"
  by (simp add: square_press square_move)
    (simp add: square_pressed_def square_moved_def square_dotted_def)

section \<open>Reconciliation: the patch and its bounds\<close>

lemma arr_get_update:
  "arr_get (xs[i := v]) j = (if j = int i \<and> i < length xs then Some v else arr_get xs j)"
  by (auto simp: arr_get_def nth_list_update)

lemma assign_patch_frame:
  "assign_patch p conv args tm = Inr tm' \<Longrightarrow> Some f \<notin> set args \<Longrightarrow> viewing tm' f = viewing tm f"
proof (induction args arbitrary: tm)
  case Nil
  then show ?case by simp
next
  case (Cons a args)
  show ?case
  proof (cases a)
    case None
    then show ?thesis using Cons.prems by simp
  next
    case (Some g)
    from Cons.prems(1) Some obtain d0 d1 d2 where
      rest: "assign_patch p conv args
          (tm \<lparr> viewingMaterial := (viewingMaterial tm)[g := p],
                viewingTextureUvs := (viewingTextureUvs tm)[g := (conv d0, conv d1, conv d2)] \<rparr>)
        = Inr tm'"
      by (auto split: option.splits prod.splits)
    have "g \<noteq> f" using Cons.prems(2) Some by auto
    then show ?thesis
      using Cons.IH[OF rest] Cons.prems(2) by (simp add: viewing_def arr_get_update)
  qed
qed

lemma assign_patch_other:
  "assign_patch p conv args tm = Inr tm' \<Longrightarrow>
     drawingTextureUvs tm' = drawingTextureUvs tm \<and> drawingCanvas tm' = drawingCanvas tm
     \<and> recorder tm' = recorder tm \<and> isFloodFill tm' = isFloodFill tm
     \<and> length (viewingMaterial tm') = length (viewingMaterial tm)"
proof (induction args arbitrary: tm)
  case Nil
  then show ?case by simp
next
  case (Cons a args)
  show ?case
  proof (cases a)
    case None
    then show ?thesis using Cons.prems by simp
  next
    case (Some g)
    from Cons.prems(1) Some obtain d0 d1 d2 where
      rest: "assign_patch p conv args
          (tm \<lparr> viewingMaterial := (viewingMaterial tm)[g := p],
                viewingTextureUvs := (viewingTextureUvs tm)[g := (conv d0, conv d1, conv d2)] \<rparr>)
        = Inr tm'"
      by (auto split: option.splits prod.splits)
    show ?thesis using Cons.IH[OF rest] by simp
  qed
qed

lemma assign_patch_image:
  "assign_patch p conv args tm = Inr tm' \<Longrightarrow> Some f \<in> set args
     \<Longrightarrow> arr_get (viewingMaterial tm') (int f) = Some p"
proof (induction args arbitrary: tm)
  case Nil
  then show ?case by simp
next
  case (Cons a args)
  show ?case
  proof (cases a)
    case None
    then show ?thesis using Cons.prems by simp
  next
    case (Some g)
    from Cons.prems(1) Some obtain d0 d1 d2 where
      rest: "assign_patch p conv args
          (tm \<lparr> viewingMaterial := (viewingMaterial tm)[g := p],
                viewingTextureUvs := (viewingTextureUvs tm)[g := (conv d0, conv d1, conv d2)] \<rparr>)
        = Inr tm'"
      and inrange: "g < length (viewingMaterial tm)"
      by (auto simp: arr_get_def split: option.splits prod.splits if_splits)
    show ?thesis
    proof (cases "Some f \<in> set args")
      case True
      then show ?thesis using Cons.IH[OF rest] by simp
    next
      case False
      then have "g = f" using Cons.prems(2) Some by simp
      have "arr_get (viewingMaterial tm') (int f) =
          arr_get ((viewingMaterial tm)[g := p]) (int f)"
        using assign_patch_frame[OF rest False] by (simp add: viewing_def)
      then show ?thesis using \<open>g = f\<close> inrange by (simp add: arr_get_update)
    qed
  qed
qed

text \<open>What a successful reconciliation with a non-empty recorder consists of.\<close>

lemma prepareViewingTexture_steps:
  assumes "prepareViewingTexture tm = Inr tm'" "nAffectedFaces (recorder tm) > 0"
  obtains uvss tm1 r where
    "collect_uvs tm (forEach_args (recorder tm)) = Inr uvss"
    "assign_patch (extract_patch (drawingCanvas tm) uvss) (patch_uv (drawingCanvas tm) uvss)
       (forEach_args (recorder tm)) tm = Inr tm1"
    "reset (recorder tm1) = Inr r" "tm' = tm1 \<lparr> recorder := r \<rparr>"
  using assms
  by (auto simp: prepareViewingTexture_def extract_patch_def patch_uv_def Let_def split: sum.splits)

lemma reset_count: "reset r = Inr r' \<Longrightarrow> nAffectedFaces r' = 0"
  by (auto simp: reset_def split: sum.splits)

lemma prepareViewingTexture_empties:
  assumes "prepareViewingTexture tm = Inr tm'"
  shows "nAffectedFaces (recorder tm') = 0"
proof (cases "nAffectedFaces (recorder tm) > 0")
  case False
  then show ?thesis using assms by (simp add: prepareViewingTexture_def)
next
  case True
  from assms True show ?thesis
  proof (rule prepareViewingTexture_steps)
    fix uvss tm1 r
    assume "reset (recorder tm1) = Inr r" "tm' = tm1 \<lparr> recorder := r \<rparr>"
    then show ?thesis using reset_count by simp
  qed
qed

lemma prepareViewingTexture_frame:
  assumes "prepareViewingTexture tm = Inr tm'" "Some f \<notin> set (forEach_args (recorder tm))"
  shows "viewing tm' f = viewing tm f"
proof (cases "nAffectedFaces (recorder tm) > 0")
  case False
  then show ?thesis using assms by (simp add: prepareViewingTexture_def)
next
  case True
  from assms(1) True show ?thesis
  proof (rule prepareViewingTexture_steps)
    fix uvss tm1 r
    assume a: "assign_patch (extract_patch (drawingCanvas tm) uvss)
        (patch_uv (drawingCanvas tm) uvss) (forEach_args (recorder tm)) tm = Inr tm1"
      and t: "tm' = tm1 \<lparr> recorder := r \<rparr>"
    have "viewing tm1 f = viewing tm f" using assign_patch_frame[OF a assms(2)] .
    then show ?thesis by (simp add: t viewing_def)
  qed
qed

lemma prepareViewingTexture_image:
  assumes "prepareViewingTexture tm = Inr tm'" "Some f \<in> set (forEach_args (recorder tm))"
    "collect_uvs tm (forEach_args (recorder tm)) = Inr uvss"
  shows "arr_get (viewingMaterial tm') (int f) = Some (extract_patch (drawingCanvas tm) uvss)"
proof -
  have pos: "nAffectedFaces (recorder tm) > 0"
    using assms(2) by (cases "nAffectedFaces (recorder tm)") (simp_all add: forEach_args_def)
  from assms(1) pos show ?thesis
  proof (rule prepareViewingTexture_steps)
    fix uvss' tm1 r
    assume c: "collect_uvs tm (forEach_args (recorder tm)) = Inr uvss'"
      and a: "assign_patch (extract_patch (drawingCanvas tm) uvss')
        (patch_uv (drawingCanvas tm) uvss') (forEach_args (recorder tm)) tm = Inr tm1"
      and t: "tm' = tm1 \<lparr> recorder := r \<rparr>"
    have "uvss' = uvss" using c assms(3) by simp
    then show ?thesis using assign_patch_image[OF a assms(2)] by (simp add: t)
  qed
qed

text \<open>
  C7. On a 100 by 100 drawing surface, when the drawing UVs of the recorded faces span
  \<open>u\<close> from 0.2 to 0.4 and \<open>v\<close> from 0.3 to 0.5, reconciliation gives every recorded face a
  patch of 20 by 20 pixels copied from the rectangle of the drawing surface with the
  corners (20, 50) and (40, 70), which are the pixels of the UVs (0.2, 0.5) and
  (0.4, 0.3) under \<open>pixelX = u * width\<close>, \<open>pixelY = (1 - v) * height\<close>.
\<close>

theorem patch_bounds_scenario:
  assumes "prepareViewingTexture tm = Inr tm'"
    and "Some f \<in> set (forEach_args (recorder tm))"
    and "collect_uvs tm (forEach_args (recorder tm)) = Inr uvss"
    and "Min (set (us_of uvss)) = 0.2" "Max (set (us_of uvss)) = 0.4"
    and "Min (set (vs_of uvss)) = 0.3" "Max (set (vs_of uvss)) = 0.5"
    and "width (drawingCanvas tm) = 100" "height (drawingCanvas tm) = 100"
  shows "\<exists>img. arr_get (viewingMaterial tm') (int f) = Some img
    \<and> image_size img = (20, 20)
    \<and> source_rect img = Some ((20, 50), (40, 70))
    \<and> source_rect img = Some (to_pixel (drawingCanvas tm) (0.2, 0.5),
                               to_pixel (drawingCanvas tm) (0.4, 0.3))"
proof -
  have "extract_patch (drawingCanvas tm) uvss = PatchCanvas 20 20 (drawingCanvas tm) 20 50"
    unfolding extract_patch_def Let_def assms(4-9) to_uint32_def by simp
  then have "arr_get (viewingMaterial tm') (int f) = Some (PatchCanvas 20 20 (drawingCanvas tm) 20 50)"
    using prepareViewingTexture_image[OF assms(1-3)] by simp
  then show ?thesis using assms(8,9) by (simp add: to_pixel_def)
qed

lemma new_wedge: "new_TextureManager wedge (0, 0, 1) = Inr wedge_tm"
proof -
  have "length (faces wedge) = 1" "length (vertices wedge) = 3" by (simp_all add: wedge_def)
  then show ?thesis
    by (simp add: new_TextureManager_def build_adjacency_def wedge_tm_def
        new_AffectedFacesRecorder_def numeral_eq_Suc)
qed

lemma paint_wedge:
  "prepareDrawingTexture blank100 (\<lambda>p. p) wedge_tm = Inr (wedge_painted \<lparr> isFloodFill := [0], recorder := recorder wedge_tm \<rparr>)"
  "onStrokePainted [0] (35, 65) 1 (wedge_painted \<lparr> isFloodFill := [0], recorder := recorder wedge_tm \<rparr>)
     = Some (Inr wedge_painted)"
  by (simp_all add: prepareDrawingTexture_def wedge_tm_def wedge_painted_def wedge_def blank100_def
      eval_defs)

lemmas reconcile_defs = prepareViewingTexture_def forEach_args_def us_of_def vs_of_def to_uint32_def
  to_viewing_def reset_def ta_copy_def ta_get_def arr_get_def js_div_def Let_def

lemma reconcile_wedge: "prepareViewingTexture wedge_painted = Inr wedge_reconciled"
  by (simp add: reconcile_defs wedge_painted_def wedge_tm_def wedge_reconciled_def blank100_def)

theorem patch_bounds_scenario_witness:
  "prepareViewingTexture wedge_painted = Inr wedge_reconciled
   \<and> forEach_args (recorder wedge_painted) = [Some 0]
   \<and> drawingTextureUvs wedge_painted = [((0.2, 0.3), (0.4, 0.3), (0.4, 0.5))]
   \<and> (\<exists>img. arr_get (viewingMaterial wedge_reconciled) 0 = Some img
        \<and> image_size img = (20, 20) \<and> source_rect img = Some ((20, 50), (40, 70)))"
proof -
  let ?uvss = "[((0.2, 0.3), (0.4, 0.3), (0.4, 0.5))] :: (Vector2 \<times> Vector2 \<times> Vector2) list"
  have args: "forEach_args (recorder wedge_painted) = [Some 0]"
    by (simp add: forEach_args_def ta_get_def wedge_painted_def)
  have uvs: "drawingTextureUvs wedge_painted = ?uvss" by (simp add: wedge_painted_def)
  have col: "collect_uvs wedge_painted (forEach_args (recorder wedge_painted)) = Inr ?uvss"
    by (simp add: args uvs arr_get_def)
  have b: "Min (set (us_of ?uvss)) = 0.2" "Max (set (us_of ?uvss)) = 0.4"
    "Min (set (vs_of ?uvss)) = 0.3" "Max (set (vs_of ?uvss)) = 0.5"
    by (simp_all add: us_of_def vs_of_def)
  have cv: "width (drawingCanvas wedge_painted) = 100" "height (drawingCanvas wedge_painted) = 100"
    by (simp_all add: wedge_painted_def blank100_def)
  have "Some 0 \<in> set (forEach_args (recorder wedge_painted))" by (simp add: args)
  from patch_bounds_scenario[OF reconcile_wedge this col b cv]
  show ?thesis using reconcile_wedge args uvs by auto
qed

section \<open>Reconciliation leaves the other faces alone\<close>

lemma run_op_frame:
  assumes "run_op x tm = Some (Inr tm')" "\<not> reconciles f x tm"
  shows "viewing tm' f = viewing tm f"
proof (cases x)
  case PrepareViewing
  then show ?thesis using assms prepareViewingTexture_frame by simp
next
  case (PrepareDrawing rd pr)
  then show ?thesis
    using assms(1)
    by (auto simp: prepareDrawingTexture_def viewing_def Let_def split: if_splits sum.splits)
next
  case (StrokePainted hits pos radius)
  show ?thesis
  proof (cases hits)
    case Nil
    then show ?thesis using assms(1) StrokePainted by (simp add: onStrokePainted_def)
  next
    case (Cons seed others)
    from assms(1) obtain cleared where
      run: "add_recursive (Suc (length cleared)) seed pos radius (tm \<lparr> isFloodFill := cleared \<rparr>)
          = Some (Inr tm')"
      unfolding StrokePainted Cons
      by (auto simp: onStrokePainted_def split: sum.splits)
    from add_recursive_frame[OF run] obtain b r where
      "tm' = tm \<lparr> isFloodFill := cleared \<rparr> \<lparr> isFloodFill := b, recorder := r \<rparr>"
      unfolding frame_def by blast
    then show ?thesis by (simp add: viewing_def)
  qed
next
  case (CameraMoved p)
  then show ?thesis using assms(1) by (auto simp: viewing_def)
qed

lemma run_ops_frame:
  "run_ops xs tm = Some (Inr tm') \<Longrightarrow> \<not> reconciled f xs tm \<Longrightarrow> viewing tm' f = viewing tm f"
proof (induction xs arbitrary: tm)
  case Nil
  then show ?case by simp
next
  case (Cons x xs)
  from Cons.prems(1) obtain tm1 where
    one: "run_op x tm = Some (Inr tm1)" and rest: "run_ops xs tm1 = Some (Inr tm')"
    by (auto split: option.splits sum.splits)
  have "\<not> reconciles f x tm" "\<not> reconciled f xs tm1"
    using Cons.prems(2) one by simp_all
  then show ?case using Cons.IH[OF rest] run_op_frame[OF one] by simp
qed

lemma new_viewing:
  assumes "new_TextureManager g cam = Inr tm" "f < length (faces g)"
  shows "viewing tm f =
    (Some ((Some 0.5, Some 0.5), (Some 0.5, Some 0.5), (Some 0.5, Some 0.5)), Some SinglePixelCanvas)"
  using assms
  by (auto simp: new_TextureManager_def viewing_def arr_get_def Let_def split: sum.splits)

text \<open>
  C9. A reconciliation leaves the viewing UVs and the viewing image of every face that
  the recorder does not hold as they were. Over any run of the texture manager's
  operations from its construction, a face that no reconciliation of the run found in
  the recorder still has the placeholder UVs (0.5, 0.5) and the white single-pixel image.
\<close>

theorem reconciliation_frame:
  "(prepareViewingTexture tm = Inr tm' \<longrightarrow> Some f \<notin> set (forEach_args (recorder tm)) \<longrightarrow>
      viewing tm' f = viewing tm f)
   \<and> (new_TextureManager g cam = Inr tm0 \<longrightarrow> run_ops xs tm0 = Some (Inr tm1) \<longrightarrow>
        f < length (faces g) \<longrightarrow> \<not> reconciled f xs tm0 \<longrightarrow>
        viewing tm1 f =
          (Some ((Some 0.5, Some 0.5), (Some 0.5, Some 0.5), (Some 0.5, Some 0.5)),
           Some SinglePixelCanvas))"
proof (intro conjI impI)
  assume "prepareViewingTexture tm = Inr tm'" "Some f \<notin> set (forEach_args (recorder tm))"
  then show "viewing tm' f = viewing tm f" by (rule prepareViewingTexture_frame)
next
  assume new: "new_TextureManager g cam = Inr tm0" and run: "run_ops xs tm0 = Some (Inr tm1)"
    and f: "f < length (faces g)" and never: "\<not> reconciled f xs tm0"
  have "viewing tm1 f = viewing tm0 f" using run never by (rule run_ops_frame)
  then show "viewing tm1 f =
      (Some ((Some 0.5, Some 0.5), (Some 0.5, Some 0.5), (Some 0.5, Some 0.5)),
       Some SinglePixelCanvas)"
    using new_viewing[OF new f] by simp
qed

lemma reconcile_square: "prepareViewingTexture square_dotted = Inr square_reconciled"
  by (simp add: reconcile_defs square_dotted_def square_defs square_reconciled_def)

theorem reconciliation_frame_witness:
  "prepareViewingTexture square_dotted = Inr square_reconciled
   \<and> forEach_args (recorder square_dotted) = [Some 0]
   \<and> viewing square_reconciled 1 = viewing square_dotted 1
   \<and> new_TextureManager square (0, 0, 1) = Inr (square_tm (0, 0, 1))
   \<and> run_ops [PrepareDrawing blank100 (\<lambda>p. p), StrokePainted [0] (90, 40) 0, PrepareViewing]
        (square_tm (0, 0, 1)) = Some (Inr square_reconciled)
   \<and> viewing square_reconciled 1 =
        (Some ((Some 0.5, Some 0.5), (Some 0.5, Some 0.5), (Some 0.5, Some 0.5)),
         Some SinglePixelCanvas)
   \<and> viewing square_reconciled 0 =
        (Some ((Some 0, Some 0), (Some 1, Some 0), (Some 1, Some 1)),
         Some (PatchCanvas 50 50 blank100 50 0))"
proof -
  let ?ops = "[PrepareDrawing blank100 (\<lambda>p. p), StrokePainted [0] (90, 40) 0, PrepareViewing]"
  have args: "forEach_args (recorder square_dotted) = [Some 0]"
    by (simp add: forEach_args_def ta_get_def square_dotted_def)
  have run: "run_ops ?ops (square_tm (0, 0, 1)) = Some (Inr square_reconciled)"
    by (simp add: draw_square square_dotted_run reconcile_square)
  have never: "\<not> reconciled 1 ?ops (square_tm (0, 0, 1))"
    by (simp add: draw_square square_dotted_run reconcile_square args)
  have len: "1 < length (faces square)" by (simp add: square_def)
  have zero: "viewing square_reconciled 0 =
        (Some ((Some 0, Some 0), (Some 1, Some 0), (Some 1, Some 1)),
         Some (PatchCanvas 50 50 blank100 50 0))"
    by (simp add: viewing_def arr_get_def square_reconciled_def)
  note inst = reconciliation_frame[of square_dotted square_reconciled 1 square "(0, 0, 1)"
        "square_tm (0, 0, 1)" ?ops square_reconciled]
  have one: "viewing square_reconciled 1 = viewing square_dotted 1"
    using inst reconcile_square args by simp
  have two: "viewing square_reconciled 1 =
        (Some ((Some 0.5, Some 0.5), (Some 0.5, Some 0.5), (Some 0.5, Some 0.5)),
         Some SinglePixelCanvas)"
    using inst[THEN conjunct2] new_square run len never by blast
  show ?thesis
    using reconcile_square args new_square run zero one two by blast
qed

section \<open>Switching textures twice\<close>

lemma prepareViewingTexture_again:
  assumes "prepareViewingTexture tm = Inr tm'"
  shows "prepareViewingTexture tm' = Inr tm'"
  using prepareViewingTexture_empties[OF assms] by (simp add: prepareViewingTexture_def)

text \<open>
  C8. Switching to the texture that is already in use does nothing: after a switch to the
  drawing texture, a second switch returns the controls as they are, whatever the
  renderer and the camera would now give; after a switch to the viewing texture, a second
  switch returns the controls as they are. Reconciliation itself leaves the recorder
  empty, and on an empty recorder it returns the texture manager as it is.
\<close>

theorem mode_switch_idempotent:
  "(useDrawingTexture out c = Inr c' \<longrightarrow> useDrawingTexture out' c' = Inr c')
   \<and> (useViewingTexture c = Inr c'' \<longrightarrow> useViewingTexture c'' = Inr c'')
   \<and> (prepareViewingTexture tm = Inr tm' \<longrightarrow>
        nAffectedFaces (recorder tm') = 0 \<and> prepareViewingTexture tm' = Inr tm')
   \<and> (nAffectedFaces (recorder tm) = 0 \<longrightarrow> prepareViewingTexture tm = Inr tm)"
proof (intro conjI impI)
  assume "useDrawingTexture out c = Inr c'"
  then have "\<not> usingViewingTexture c'"
    by (auto simp: useDrawingTexture_def split: if_splits sum.splits)
  then show "useDrawingTexture out' c' = Inr c'" by (simp add: useDrawingTexture_def)
next
  assume "useViewingTexture c = Inr c''"
  then have "usingViewingTexture c''"
    by (auto simp: useViewingTexture_def split: if_splits sum.splits)
  then show "useViewingTexture c'' = Inr c''" by (simp add: useViewingTexture_def)
next
  assume run: "prepareViewingTexture tm = Inr tm'"
  show "nAffectedFaces (recorder tm') = 0" using run by (rule prepareViewingTexture_empties)
  show "prepareViewingTexture tm' = Inr tm'" using run by (rule prepareViewingTexture_again)
next
  assume "nAffectedFaces (recorder tm) = 0"
  then show "prepareViewingTexture tm = Inr tm" by (simp add: prepareViewingTexture_def)
qed

theorem mode_switch_idempotent_witness:
  "useDrawingTexture (pointer_at [0]) square_controls =
     Inr (square_controls \<lparr> textureManager := square_drawn (0, 0, 1),
            mesh_material := DrawingMaterial, usingViewingTexture := False \<rparr>)
   \<and> useDrawingTexture (pointer_at [1])
         (square_controls \<lparr> textureManager := square_drawn (0, 0, 1),
            mesh_material := DrawingMaterial, usingViewingTexture := False \<rparr>) =
       Inr (square_controls \<lparr> textureManager := square_drawn (0, 0, 1),
            mesh_material := DrawingMaterial, usingViewingTexture := False \<rparr>)
   \<and> useViewingTexture (mouseup square_pressed) = Inr square_viewed
   \<and> useViewingTexture square_viewed = Inr square_viewed
   \<and> prepareViewingTexture square_dotted = Inr square_reconciled
   \<and> nAffectedFaces (recorder square_reconciled) = 0
   \<and> prepareViewingTexture square_reconciled = Inr square_reconciled"
proof -
  let ?c1 = "square_controls \<lparr> textureManager := square_drawn (0, 0, 1),
            mesh_material := DrawingMaterial, usingViewingTexture := False \<rparr>"
  have d: "useDrawingTexture (pointer_at [0]) square_controls = Inr ?c1"
    by (simp add: useDrawingTexture_def square_controls_def pointer_at_def draw_square)
  have v: "useViewingTexture (mouseup square_pressed) = Inr square_viewed"
    by (simp add: useViewingTexture_def mouseup_def square_pressed_def square_viewed_def
        reconcile_square)
  note draw = mode_switch_idempotent[where out = "pointer_at [0]" and c = square_controls
      and c' = ?c1 and out' = "pointer_at [1]", THEN conjunct1]
  note view = mode_switch_idempotent[where c = "mouseup square_pressed" and c'' = square_viewed
      and tm = square_dotted and tm' = square_reconciled, THEN conjunct2]
  have d2: "useDrawingTexture (pointer_at [1]) ?c1 = Inr ?c1" using draw d by blast
  have v2: "useViewingTexture square_viewed = Inr square_viewed" using view v by blast
  have r2: "nAffectedFaces (recorder square_reconciled) = 0
      \<and> prepareViewingTexture square_reconciled = Inr square_reconciled"
    using view reconcile_square by blast
  show ?thesis using d d2 v v2 r2 reconcile_square by blast
qed

section \<open>The adjacency lists built by the constructor\<close>

lemma corner_pairs_valid: "kl \<in> set corner_pairs \<Longrightarrow> fst kl < 3 \<and> snd kl < 3"
  by (auto simp: corner_pairs_def)

lemma corners_nth:
  "f \<in> set (faces g) \<Longrightarrow> well_indexed g \<Longrightarrow> k < 3 \<Longrightarrow> corners f ! k < length (vertices g)"
proof -
  assume "f \<in> set (faces g)" "well_indexed g" "k < 3"
  then have "\<forall>v\<in>set (corners f). v < length (vertices g)" by (simp add: well_indexed_def)
  moreover have "corners f ! k \<in> set (corners f)"
    using \<open>k < 3\<close> by (intro nth_mem) (simp add: corners_def)
  ultimately show ?thesis by blast
qed

lemma coincide_ok:
  assumes "well_indexed g" "i < length (faces g)" "j < length (faces g)" "fst kl < 3" "snd kl < 3"
  shows "coincide g (faces g ! i) (faces g ! j) kl =
     Inr (corner_at g i (fst kl) = corner_at g j (snd kl)
          \<and> dot (normal (faces g ! i)) (normal (faces g ! j)) > 0)"
proof -
  have a: "corners (faces g ! i) ! fst kl < length (vertices g)"
    using corners_nth[of "faces g ! i" g "fst kl"] assms by simp
  have b: "corners (faces g ! j) ! snd kl < length (vertices g)"
    using corners_nth[of "faces g ! j" g "snd kl"] assms by simp
  show ?thesis
    using a b by (auto simp: coincide_def arr_get_def corner_at_def prod_eq_iff)
qed

lemma count_loop_ok:
  assumes "well_indexed g" "i < length (faces g)" "j < length (faces g)"
    "\<forall>kl\<in>set kls. fst kl < 3 \<and> snd kl < 3"
  shows "count_loop g (faces g ! i) (faces g ! j) kls count =
     Inr (count + length (filter (\<lambda>kl. corner_at g i (fst kl) = corner_at g j (snd kl)
                          \<and> dot (normal (faces g ! i)) (normal (faces g ! j)) > 0) kls))"
  using assms(4)
proof (induction kls arbitrary: count)
  case Nil
  then show ?case by simp
next
  case (Cons kl kls)
  have "coincide g (faces g ! i) (faces g ! j) kl =
     Inr (corner_at g i (fst kl) = corner_at g j (snd kl)
          \<and> dot (normal (faces g ! i)) (normal (faces g ! j)) > 0)"
    using coincide_ok[OF assms(1-3)] Cons.prems by simp
  then show ?case using Cons by simp
qed

lemma count_loop_coincidences:
  assumes "well_indexed g" "i < length (faces g)" "j < length (faces g)"
  shows "count_loop g (faces g ! i) (faces g ! j) corner_pairs 0 = Inr (coincidences g i j)"
  using count_loop_ok[OF assms, of corner_pairs 0] corner_pairs_valid
  by (simp add: coincidences_def)

lemma dot_commute: "dot p q = dot q p"
  by (simp add: dot_def split: prod.splits)

lemma coincidences_sym: "coincidences g i j = coincidences g j i"
proof -
  let ?P = "\<lambda>a b kl. corner_at g a (fst kl) = corner_at g b (snd kl)
                          \<and> dot (normal (faces g ! a)) (normal (faces g ! b)) > 0"
  have d: "distinct corner_pairs" by (simp add: corner_pairs_def)
  have sw: "prod.swap ` set corner_pairs = set corner_pairs"
    by (auto simp: corner_pairs_def)
  have "{kl \<in> set corner_pairs. ?P j i kl} = prod.swap ` {kl \<in> set corner_pairs. ?P i j kl}"
  proof (intro set_eqI iffI)
    fix kl assume "kl \<in> {kl \<in> set corner_pairs. ?P j i kl}"
    then have "prod.swap kl \<in> {kl \<in> set corner_pairs. ?P i j kl}"
      using sw by (auto simp: dot_commute)
    then show "kl \<in> prod.swap ` {kl \<in> set corner_pairs. ?P i j kl}"
      by (metis (no_types, lifting) image_eqI swap_swap)
  next
    fix kl assume "kl \<in> prod.swap ` {kl \<in> set corner_pairs. ?P i j kl}"
    then show "kl \<in> {kl \<in> set corner_pairs. ?P j i kl}"
      using sw by (auto simp: dot_commute)
  qed
  then have "card {kl \<in> set corner_pairs. ?P j i kl} = card {kl \<in> set corner_pairs. ?P i j kl}"
    by (simp add: card_image)
  then show ?thesis
    unfolding coincidences_def using d by (simp add: distinct_length_filter Int_def conj_commute)
qed

lemma link_eq:
  assumes sh: "shaped F (n, adj)" and ij: "i < F" "j < F" "i \<noteq> j"
    and room: "n ! i < F" "n ! j < F" "n ! i < 255" "n ! j < 255" and F: "F \<le> 2 ^ 32"
  shows "link i j (n, adj) =
     (n[i := Suc (n ! i), j := Suc (n ! j)],
      adj[i := (adj ! i)[n ! i := j], j := (adj ! j)[n ! j := i]])"
proof -
  have len: "length n = F" "length adj = F" "length (adj ! i) = F" "length (adj ! j) = F"
    using sh ij by (simp_all add: shaped_def)
  have small: "int i mod 4294967296 = int i" "int j mod 4294967296 = int j"
    using ij F by simp_all
  have inc: "(int (n ! i) + 1) mod 256 = int (n ! i) + 1" "(int (n ! j) + 1) mod 256 = int (n ! j) + 1"
    using room by simp_all
  have a1: "ta_set 32 (adj ! i) (int (n ! i)) (int j) = (adj ! i)[n ! i := j]"
    using room len by (simp add: ta_set_def small)
  have a2: "ta_set 32 (adj[i := (adj ! i)[n ! i := j]] ! j) (int (n ! j)) (int i) = (adj ! j)[n ! j := i]"
    using room len ij by (simp add: ta_set_def small)
  have n1: "ta_set 8 n (int i) (int (n ! i) + 1) = n[i := Suc (n ! i)]"
    using len ij by (simp add: ta_set_def inc nat_add_distrib)
  have n2: "ta_set 8 (n[i := Suc (n ! i)]) (int j) (int (n[i := Suc (n ! i)] ! j) + 1)
      = n[i := Suc (n ! i), j := Suc (n ! j)]"
    using len ij by (simp add: ta_set_def inc nat_add_distrib)
  show ?thesis
    by (simp add: link_def Let_def a1 a2 n1 n2)
qed

lemma link_listed:
  assumes sh: "shaped F s" and ij: "i < F" "j < F" "i \<noteq> j"
    and room: "fst s ! i < F" "fst s ! j < F" "fst s ! i < 255" "fst s ! j < 255"
    and F: "F \<le> 2 ^ 32"
  shows "shaped F (link i j s)"
    and "x < F \<Longrightarrow> listed (link i j s) x =
       (if x = i then listed s i @ [j] else if x = j then listed s j @ [i] else listed s x)"
proof -
  obtain n adj where s: "s = (n, adj)" by (cases s)
  have len: "length n = F" "length adj = F" "length (adj ! i) = F" "length (adj ! j) = F"
    using sh ij by (simp_all add: shaped_def s)
  note eq = link_eq[OF sh[unfolded s] ij room[unfolded s fst_conv] F]
  show "shaped F (link i j s)"
    using sh room ij unfolding s eq shaped_def
    by (auto simp: nth_list_update)
  show "listed (link i j s) x =
       (if x = i then listed s i @ [j] else if x = j then listed s j @ [i] else listed s x)"
    if "x < F"
    using that ij len room unfolding s eq listed_def
    by (auto simp: nth_list_update take_Suc_conv_app_nth s)
qed

lemma listed_length: "shaped F s \<Longrightarrow> x < F \<Longrightarrow> length (listed s x) = fst s ! x"
  by (simp add: shaped_def listed_def)

lemma linked_room:
  assumes l: "linked g F P s" and irr: "\<forall>(a, b)\<in>P. a < b"
    and x: "x < F" and y: "y < F" "x \<noteq> y" "(x, y) \<notin> P" "(y, x) \<notin> P"
  shows "fst s ! x + 2 \<le> F"
proof -
  have sh: "shaped F s" and d: "distinct (listed s x)"
    and st: "set (listed s x) = {z. z < F \<and> ((x, z) \<in> P \<or> (z, x) \<in> P) \<and> coincidences g x z = 2}"
    using l x unfolding linked_def by blast+
  have "set (listed s x) \<subseteq> {..<F} - {x, y}"
    unfolding st using irr y by auto
  then have "card (set (listed s x)) \<le> card ({..<F} - {x, y})"
    by (rule card_mono[rotated]) simp
  also have "\<dots> = F - 2" using x y by (simp add: card_Diff_subset)
  finally have "fst s ! x \<le> F - 2"
    using distinct_card[OF d] listed_length[OF sh x] by simp
  moreover have "2 \<le> F" using x y by linarith
  ultimately show ?thesis by simp
qed

lemma linked_below_degree:
  assumes l: "linked g F P s" and irr: "\<forall>(a, b)\<in>P. a < b"
    and x: "x < F" and y: "y < F" "x \<noteq> y" "(x, y) \<notin> P" "(y, x) \<notin> P"
    and c: "coincidences g x y = 2"
  shows "fst s ! x < card {z. z < F \<and> z \<noteq> x \<and> coincidences g x z = 2}"
proof -
  let ?N = "{z. z < F \<and> z \<noteq> x \<and> coincidences g x z = 2}"
  have sh: "shaped F s" and d: "distinct (listed s x)"
    and st: "set (listed s x) = {z. z < F \<and> ((x, z) \<in> P \<or> (z, x) \<in> P) \<and> coincidences g x z = 2}"
    using l x unfolding linked_def by blast+
  have fin: "finite ?N" by simp
  have yN: "y \<in> ?N" using y c by simp
  have "set (listed s x) \<subseteq> ?N - {y}"
    unfolding st using irr y by auto
  then have "card (set (listed s x)) \<le> card (?N - {y})"
    by (rule card_mono[rotated]) (simp add: fin)
  also have "\<dots> < card ?N" using fin yN by (intro card_Diff1_less)
  finally show ?thesis
    using distinct_card[OF d] listed_length[OF sh x] by simp
qed

lemma linked_step:
  assumes l: "linked g F P s" and irr: "\<forall>(a, b)\<in>P. a < b"
    and ij: "i < j" "j < F" "(i, j) \<notin> P" and F: "F \<le> 2 ^ 32"
    and deg: "\<forall>x<F. card {z. z < F \<and> z \<noteq> x \<and> coincidences g x z = 2} \<le> 255"
  shows "linked g F (insert (i, j) P) (if coincidences g i j = 2 then link i j s else s)"
proof -
  have iF: "i < F" and ne: "i \<noteq> j" using ij by simp_all
  have ji: "(j, i) \<notin> P" using irr ij(1) by auto
  have sh: "shaped F s" using l by (simp add: linked_def)
  have old: "distinct (listed s x)"
    "set (listed s x) = {y. y < F \<and> ((x, y) \<in> P \<or> (y, x) \<in> P) \<and> coincidences g x y = 2}"
    if "x < F" for x
    using l that unfolding linked_def by blast+
  show ?thesis
  proof (cases "coincidences g i j = 2")
    case False
    have "{y. y < F \<and> ((x, y) \<in> insert (i, j) P \<or> (y, x) \<in> insert (i, j) P) \<and> coincidences g x y = 2}
        = {y. y < F \<and> ((x, y) \<in> P \<or> (y, x) \<in> P) \<and> coincidences g x y = 2}" for x
      using False coincidences_sym[of g i j] by auto
    then show ?thesis using False sh old unfolding linked_def by simp
  next
    case True
    have ri: "fst s ! i + 2 \<le> F" using linked_room[OF l irr iF ij(2) ne ij(3) ji] .
    have rj: "fst s ! j + 2 \<le> F" using linked_room[OF l irr ij(2) iF ne[symmetric] ji ij(3)] .
    have sym: "coincidences g j i = 2" using True by (simp add: coincidences_sym[of g j i])
    have di: "fst s ! i < 255"
      using linked_below_degree[OF l irr iF ij(2) ne ij(3) ji True] deg iF by fastforce
    have dj: "fst s ! j < 255"
      using linked_below_degree[OF l irr ij(2) iF ne[symmetric] ji ij(3) sym] deg ij(2)
      by fastforce
    have room: "fst s ! i < F" "fst s ! j < F" "fst s ! i < 255" "fst s ! j < 255"
      using ri rj di dj by simp_all
    note lk = link_listed[OF sh iF ij(2) ne room F]
    have nj: "j \<notin> set (listed s i)" using old(2)[OF iF] ij(3) ji by simp
    have ni: "i \<notin> set (listed s j)" using old(2)[OF ij(2)] ij(3) ji by simp
    have "distinct (listed (link i j s) x)
      \<and> set (listed (link i j s) x) =
          {y. y < F \<and> ((x, y) \<in> insert (i, j) P \<or> (y, x) \<in> insert (i, j) P) \<and> coincidences g x y = 2}"
      if x: "x < F" for x
    proof -
      consider "x = i" | "x = j" | "x \<noteq> i" "x \<noteq> j" by blast
      then show ?thesis
      proof cases
        case 1
        have "listed (link i j s) x = listed s i @ [j]" using lk(2)[OF x] 1 by simp
        moreover have "{y. y < F \<and> ((i, y) \<in> insert (i, j) P \<or> (y, i) \<in> insert (i, j) P) \<and> coincidences g i y = 2}
            = insert j {y. y < F \<and> ((i, y) \<in> P \<or> (y, i) \<in> P) \<and> coincidences g i y = 2}"
          using True ij(2) ne by auto
        ultimately show ?thesis using old[OF iF] nj 1 by simp
      next
        case 2
        have "listed (link i j s) x = listed s j @ [i]" using lk(2)[OF x] 2 ne by simp
        moreover have "{y. y < F \<and> ((j, y) \<in> insert (i, j) P \<or> (y, j) \<in> insert (i, j) P) \<and> coincidences g j y = 2}
            = insert i {y. y < F \<and> ((j, y) \<in> P \<or> (y, j) \<in> P) \<and> coincidences g j y = 2}"
          using sym iF ne by auto
        ultimately show ?thesis using old[OF ij(2)] ni 2 by simp
      next
        case 3
        have "listed (link i j s) x = listed s x" using lk(2)[OF x] 3 by simp
        moreover have "{y. y < F \<and> ((x, y) \<in> insert (i, j) P \<or> (y, x) \<in> insert (i, j) P) \<and> coincidences g x y = 2}
            = {y. y < F \<and> ((x, y) \<in> P \<or> (y, x) \<in> P) \<and> coincidences g x y = 2}"
          using 3 by auto
        ultimately show ?thesis using old[OF x] by simp
      qed
    qed
    then show ?thesis using True lk(1) unfolding linked_def by simp
  qed
qed

lemma pair_loop_linked:
  assumes wi: "well_indexed g" and F: "F = length (faces g)" "F \<le> 2 ^ 32" and i: "i < F"
    and deg: "\<forall>x<F. card {z. z < F \<and> z \<noteq> x \<and> coincidences g x z = 2} \<le> 255"
  shows "linked g F P s \<Longrightarrow> \<forall>(a, b)\<in>P. a < b \<Longrightarrow> distinct js
     \<Longrightarrow> \<forall>j\<in>set js. i < j \<and> j < F \<and> (i, j) \<notin> P
     \<Longrightarrow> \<exists>s'. pair_loop g i js s = Inr s' \<and> linked g F (P \<union> Pair i ` set js) s'"
proof (induction js arbitrary: P s)
  case Nil
  then show ?case by simp
next
  case (Cons j js)
  have j: "i < j" "j < F" "(i, j) \<notin> P" using Cons.prems(4) by simp_all
  let ?s1 = "if coincidences g i j = 2 then link i j s else s"
  have cnt: "count_loop g (faces g ! i) (faces g ! j) corner_pairs 0 = Inr (coincidences g i j)"
    using count_loop_coincidences[OF wi] i j(2) F(1) by simp
  have l1: "linked g F (insert (i, j) P) ?s1"
    using linked_step[OF Cons.prems(1,2) j F(2) deg] .
  have irr1: "\<forall>(a, b)\<in>insert (i, j) P. a < b" using Cons.prems(2) j(1) by simp
  have rest: "\<forall>j'\<in>set js. i < j' \<and> j' < F \<and> (i, j') \<notin> insert (i, j) P"
    using Cons.prems(3,4) by auto
  from Cons.IH[OF l1 irr1 _ rest] Cons.prems(3)
  obtain s' where "pair_loop g i js ?s1 = Inr s'"
    "linked g F (insert (i, j) P \<union> Pair i ` set js) s'" by auto
  then show ?case using cnt by simp
qed

lemma face_loop_linked:
  assumes wi: "well_indexed g" and F: "F = length (faces g)" "F \<le> 2 ^ 32"
    and deg: "\<forall>x<F. card {z. z < F \<and> z \<noteq> x \<and> coincidences g x z = 2} \<le> 255"
  shows "linked g F P s \<Longrightarrow> \<forall>(a, b)\<in>P. a < b \<Longrightarrow> distinct is
     \<Longrightarrow> \<forall>i\<in>set is. i < F \<and> (\<forall>j. (i, j) \<notin> P)
     \<Longrightarrow> \<exists>s'. face_loop g is s = Inr s'
            \<and> linked g F (P \<union> {(i, j). i \<in> set is \<and> i < j \<and> j < F}) s'"
proof (induction "is" arbitrary: P s)
  case Nil
  then show ?case by simp
next
  case (Cons i "is")
  have i: "i < F" "\<forall>j. (i, j) \<notin> P" using Cons.prems(4) by simp_all
  have js: "\<forall>j\<in>set [i + 1 ..< F]. i < j \<and> j < F \<and> (i, j) \<notin> P" using i(2) by simp
  from pair_loop_linked[OF wi F i(1) deg Cons.prems(1,2) _ js]
  obtain s1 where s1: "pair_loop g i [i + 1 ..< F] s = Inr s1"
    "linked g F (P \<union> Pair i ` set [i + 1 ..< F]) s1" by auto
  let ?P1 = "P \<union> Pair i ` set [i + 1 ..< F]"
  have irr1: "\<forall>(a, b)\<in>?P1. a < b" using Cons.prems(2) by auto
  have rest: "\<forall>i'\<in>set is. i' < F \<and> (\<forall>j. (i', j) \<notin> ?P1)"
    using Cons.prems(3,4) by auto
  from Cons.IH[OF s1(2) irr1 _ rest] Cons.prems(3)
  obtain s' where s': "face_loop g is s1 = Inr s'"
    "linked g F (?P1 \<union> {(i', j). i' \<in> set is \<and> i' < j \<and> j < F}) s'" by auto
  have "?P1 \<union> {(i', j). i' \<in> set is \<and> i' < j \<and> j < F}
      = P \<union> {(i', j). i' \<in> set (i # is) \<and> i' < j \<and> j < F}"
    by auto
  then show ?case using s1(1) s' F(1) by simp
qed

lemma small_mesh_bounded:
  assumes "length (faces g) \<le> 256"
  shows "bounded_degree g"
proof -
  let ?F = "length (faces g)"
  have "card {j. j < ?F \<and> j \<noteq> i \<and> coincidences g i j = 2} \<le> 255" if "i < ?F" for i
  proof -
    have "{j. j < ?F \<and> j \<noteq> i \<and> coincidences g i j = 2} \<subseteq> {..<?F} - {i}" by auto
    then have "card {j. j < ?F \<and> j \<noteq> i \<and> coincidences g i j = 2} \<le> card ({..<?F} - {i})"
      by (rule card_mono[rotated]) simp
    also have "\<dots> = ?F - 1" using that by simp
    finally show ?thesis using assms by simp
  qed
  moreover have "?F \<le> 2 ^ 32" using assms by simp
  ultimately show ?thesis unfolding bounded_degree_def by blast
qed

lemma build_adjacency_linked:
  assumes wi: "well_indexed g" and bd: "bounded_degree g"
  shows "\<exists>s. build_adjacency g = Inr s
     \<and> linked g (length (faces g)) {(i, j). i < j \<and> j < length (faces g)} s"
proof -
  let ?F = "length (faces g)"
  let ?s0 = "(replicate ?F (0::nat), replicate ?F (replicate ?F (0::nat)))"
  have l0: "linked g ?F {} ?s0"
    by (simp add: linked_def shaped_def listed_def)
  have fresh: "\<forall>i\<in>set [0 ..< ?F - 1]. i < ?F \<and> (\<forall>j. (i, j) \<notin> ({} :: (nat \<times> nat) set))"
    by auto
  have F: "?F \<le> 2 ^ 32"
    and deg: "\<forall>x<?F. card {z. z < ?F \<and> z \<noteq> x \<and> coincidences g x z = 2} \<le> 255"
    using bd unfolding bounded_degree_def by blast+
  from face_loop_linked[OF wi refl F deg l0 _ _ fresh]
  obtain s where s: "face_loop g [0 ..< ?F - 1] ?s0 = Inr s"
    "linked g ?F ({} \<union> {(i, j). i \<in> set [0 ..< ?F - 1] \<and> i < j \<and> j < ?F}) s" by auto
  have "{} \<union> {(i, j). i \<in> set [0 ..< ?F - 1] \<and> i < j \<and> j < ?F} = {(i, j). i < j \<and> j < ?F}"
    by auto
  then show ?thesis using s by (simp add: build_adjacency_def Let_def)
qed

lemma new_TextureManager_built:
  assumes "build_adjacency g = Inr s"
  shows "\<exists>tm. new_TextureManager g cam = Inr tm \<and> (nAdjacentFaces tm, AdjacentFacesList tm) = s"
  using assms by (cases s) (simp add: new_TextureManager_def Let_def)

lemma neighbours_listed:
  assumes "shaped F (nAdjacentFaces tm, AdjacentFacesList tm)" "x < F"
  shows "neighbours tm x = map Some (listed (nAdjacentFaces tm, AdjacentFacesList tm) x)"
proof -
  have len: "length (nAdjacentFaces tm) = F" "length (AdjacentFacesList tm) = F"
    "length (AdjacentFacesList tm ! x) = F" "nAdjacentFaces tm ! x \<le> F"
    using assms by (simp_all add: shaped_def)
  have "map (\<lambda>i. ta_get (AdjacentFacesList tm ! x) (int i)) [0 ..< nAdjacentFaces tm ! x]
      = map Some (take (nAdjacentFaces tm ! x) (AdjacentFacesList tm ! x))"
    using len by (auto simp: ta_get_def intro!: nth_equalityI)
  then show ?thesis
    using len assms(2)
    by (simp add: neighbours_def adjacent_entries_def ta_get_def arr_get_def listed_def)
qed

text \<open>
  C5, as the code has it. For a mesh whose corner indices are valid and in which no face
  has more than 255 neighbours (so for every mesh of at most 256 faces), the
  constructor returns, and for every face \<open>i\<close> the entries the flood fill reads are
  exactly the other faces \<open>j\<close> for which the number of coinciding pairs (a corner of \<open>i\<close>,
  a corner of \<open>j\<close>, compared by coordinates, the normals having a positive dot product)
  is 2, each listed once; and whenever \<open>j\<close> is listed for \<open>i\<close>, \<open>i\<close> is listed for \<open>j\<close>.
\<close>

theorem adjacency_lists:
  assumes "well_indexed g" "bounded_degree g"
  shows "\<exists>tm. new_TextureManager g cam = Inr tm
     \<and> (\<forall>i<length (faces g).
           None \<notin> set (neighbours tm i) \<and> distinct (neighbours tm i)
           \<and> (\<forall>j. Some j \<in> set (neighbours tm i) \<longleftrightarrow>
                    j < length (faces g) \<and> j \<noteq> i \<and> coincidences g i j = 2)
           \<and> (\<forall>j. Some j \<in> set (neighbours tm i) \<longrightarrow> Some i \<in> set (neighbours tm j)))"
proof -
  let ?F = "length (faces g)"
  from build_adjacency_linked[OF assms] obtain s where
    b: "build_adjacency g = Inr s" and l: "linked g ?F {(i, j). i < j \<and> j < ?F} s" by blast
  from new_TextureManager_built[OF b, of cam] obtain tm where
    tm: "new_TextureManager g cam = Inr tm"
    and fields: "(nAdjacentFaces tm, AdjacentFacesList tm) = s" by blast
  have sh: "shaped ?F (nAdjacentFaces tm, AdjacentFacesList tm)"
    using l unfolding linked_def fields by blast
  have nb: "neighbours tm x = map Some (listed s x)" if "x < ?F" for x
    using neighbours_listed[OF sh that] unfolding fields .
  have mem: "Some y \<in> set (neighbours tm x) \<longleftrightarrow> y < ?F \<and> y \<noteq> x \<and> coincidences g x y = 2"
    if "x < ?F" for x y
  proof -
    have "set (listed s x) = {y. y < ?F \<and> ((x, y) \<in> {(i, j). i < j \<and> j < ?F}
        \<or> (y, x) \<in> {(i, j). i < j \<and> j < ?F}) \<and> coincidences g x y = 2}"
      using l that unfolding linked_def by blast
    then have "y \<in> set (listed s x) \<longleftrightarrow> y < ?F \<and> y \<noteq> x \<and> coincidences g x y = 2"
      using that by (simp add: nat_neq_iff conj_disj_distribL conj_disj_distribR) blast
    then show ?thesis unfolding nb[OF that] by (simp add: image_iff)
  qed
  have "None \<notin> set (neighbours tm i) \<and> distinct (neighbours tm i)
     \<and> (\<forall>j. Some j \<in> set (neighbours tm i) \<longleftrightarrow> j < ?F \<and> j \<noteq> i \<and> coincidences g i j = 2)
     \<and> (\<forall>j. Some j \<in> set (neighbours tm i) \<longrightarrow> Some i \<in> set (neighbours tm j))"
    if i: "i < ?F" for i
  proof (intro conjI allI impI)
    show "None \<notin> set (neighbours tm i)" unfolding nb[OF i] by simp
    have "distinct (listed s i)" using l i unfolding linked_def by blast
    then show "distinct (neighbours tm i)" by (simp add: nb[OF i] distinct_map)
    show "Some j \<in> set (neighbours tm i) \<longleftrightarrow> j < ?F \<and> j \<noteq> i \<and> coincidences g i j = 2" for j
      by (rule mem[OF i])
    show "Some i \<in> set (neighbours tm j)" if "Some j \<in> set (neighbours tm i)" for j
    proof -
      have j: "j < ?F" "j \<noteq> i" "coincidences g i j = 2" using that mem[OF i] by blast+
      then show ?thesis using mem[OF j(1), of i] i coincidences_sym[of g j i] by simp
    qed
  qed
  then show ?thesis using tm by blast
qed

theorem adjacency_lists_witness:
  "well_indexed square \<and> bounded_degree square
   \<and> new_TextureManager square (0, 0, 1) = Inr (square_tm (0, 0, 1))
   \<and> neighbours (square_tm (0, 0, 1)) 0 = [Some 1]
   \<and> neighbours (square_tm (0, 0, 1)) 1 = [Some 0]
   \<and> coincidences square 0 1 = 2"
proof -
  have wi: "well_indexed square" by (simp add: well_indexed_def square_def corners_def)
  have F: "length (faces square) \<le> 256" "0 < length (faces square)" by (simp_all add: square_def)
  have n0: "neighbours (square_tm (0, 0, 1)) 0 = [Some 1]"
    and n1: "neighbours (square_tm (0, 0, 1)) 1 = [Some 0]"
    by (simp_all add: neighbours_def adjacent_entries_def ta_get_def arr_get_def square_tm_def)
  from adjacency_lists[OF wi small_mesh_bounded[OF F(1)], of "(0, 0, 1)"]
    new_square[of "(0, 0, 1)"]
  have "\<forall>j. Some j \<in> set (neighbours (square_tm (0, 0, 1)) 0) \<longleftrightarrow>
      j < length (faces square) \<and> j \<noteq> 0 \<and> coincidences square 0 j = 2"
    using F(2) by auto
  then have "coincidences square 0 1 = 2" using n0 by auto
  then show ?thesis using wi small_mesh_bounded[OF F(1)] new_square n0 n1 by simp
qed

text \<open>C5 as stated fails: the constructor lists the sliver as a neighbour of the
  triangle, although only one of the triangle's three corners coincides with a corner of
  the sliver.\<close>

theorem adjacency_counterexample:
  "build_adjacency pinched = Inr ([1, 1], [[1, 0], [0, 0]])
   \<and> shared_corners pinched 0 1 = 1
   \<and> dot (normal (faces pinched ! 0)) (normal (faces pinched ! 1)) > 0"
proof -
  have "build_adjacency pinched = Inr ([1, 1], [[1, 0], [0, 0]])" by code_simp
  moreover have "shared_corners pinched 0 1 = 1"
    by (simp add: shared_corners_def corner_at_def corners_def pinched_def)
  moreover have "dot (normal (faces pinched ! 0)) (normal (faces pinched ! 1)) > 0"
    by (simp add: dot_def pinched_def)
  ultimately show ?thesis by simp
qed

section \<open>Sound states: no operation fails on them\<close>

lemma scene_ok_frame: "frame tm tm' \<Longrightarrow> scene_ok tm' = scene_ok tm"
  unfolding frame_def scene_ok_def by auto

lemma adjacent_entries_ok:
  assumes "scene_ok tm" "0 \<le> f" "f < int (length (faces (geometry tm)))"
  shows "adjacent_entries tm f =
     Inr (map Some (listed (nAdjacentFaces tm, AdjacentFacesList tm) (nat f)))"
proof -
  let ?F = "length (faces (geometry tm))"
  have x: "nat f < ?F" using assms(2,3) by simp
  have sh: "shaped ?F (nAdjacentFaces tm, AdjacentFacesList tm)"
    using assms(1) by (simp add: scene_ok_def)
  have nb: "neighbours tm (nat f) = map Some (listed (nAdjacentFaces tm, AdjacentFacesList tm) (nat f))"
    using neighbours_listed[OF sh x] .
  have "\<exists>es. adjacent_entries tm f = Inr es"
    using sh x assms(2)
    by (auto simp: adjacent_entries_def shaped_def ta_get_def arr_get_def split: option.splits)
  then obtain es where es: "adjacent_entries tm f = Inr es" by blast
  then have "neighbours tm (nat f) = es" using assms(2) by (simp add: neighbours_def)
  then show ?thesis using es nb by simp
qed

lemma front_facing_ok:
  assumes "nb < length (faces (geometry tm))"
  shows "\<exists>b. front_facing tm nb = Inr b"
  using assms by (simp add: front_facing_def arr_get_def)

lemma visit_adjacent_total:
  assumes add: "\<And>f tm. scene_ok tm \<Longrightarrow> covered tm \<Longrightarrow> unvisited tm < d
      \<Longrightarrow> f < int (length (faces (geometry tm)))
      \<Longrightarrow> \<exists>tm'. add_recursive d f c r tm = Some (Inr tm')"
  shows "scene_ok tm \<Longrightarrow> covered tm \<Longrightarrow> unvisited tm < d
     \<Longrightarrow> \<forall>nb\<in>set nbs. nb < length (faces (geometry tm))
     \<Longrightarrow> \<exists>tm'. visit_adjacent d (map Some nbs) c r tm = Some (Inr tm')"
proof (induction nbs arbitrary: tm)
  case Nil
  then show ?case by simp
next
  case (Cons nb nbs)
  have nbF: "nb < length (faces (geometry tm))" using Cons.prems(4) by simp
  from front_facing_ok[OF nbF] obtain b where b: "front_facing tm nb = Inr b" by blast
  show ?case
  proof (cases b)
    case False
    from Cons.IH[OF Cons.prems(1,2,3)] Cons.prems(4)
    obtain tm' where "visit_adjacent d (map Some nbs) c r tm = Some (Inr tm')" by auto
    then show ?thesis using b False by simp
  next
    case True
    from add[OF Cons.prems(1,2,3), of "int nb"] nbF
    obtain tm1 where run: "add_recursive d (int nb) c r tm = Some (Inr tm1)" by auto
    have fr: "frame tm tm1" using run by (rule add_recursive_frame)
    have g: "geometry tm1 = geometry tm" using fr unfolding frame_def by auto
    have "scene_ok tm1" using scene_ok_frame[OF fr] Cons.prems(1) by simp
    moreover have "covered tm1" using add_recursive_covered[OF run Cons.prems(2)] .
    moreover have "unvisited tm1 < d" using add_recursive_unvisited[OF run] Cons.prems(3) by simp
    moreover have "\<forall>nb\<in>set nbs. nb < length (faces (geometry tm1))"
      using Cons.prems(4) g by simp
    ultimately obtain tm' where "visit_adjacent d (map Some nbs) c r tm1 = Some (Inr tm')"
      using Cons.IH by blast
    then show ?thesis using b True run by simp
  qed
qed

lemma add_recursive_total:
  "scene_ok tm \<Longrightarrow> covered tm \<Longrightarrow> unvisited tm < d \<Longrightarrow> f < int (length (faces (geometry tm)))
     \<Longrightarrow> \<exists>tm'. add_recursive d f c r tm = Some (Inr tm')"
proof (induction d arbitrary: f tm)
  case 0
  then show ?case by simp
next
  case (Suc d)
  show ?case
  proof (cases "0 \<le> f \<and> f \<notin> visited tm \<and> face_intersects tm c r f")
    case False
    have "arr_get (drawingTextureUvs tm) f \<noteq> None" if "0 \<le> f"
      using that Suc.prems(1,4) by (simp add: scene_ok_def arr_get_def)
    then show ?thesis
      using False by (auto simp: visited_def face_intersects_def split: option.splits)
  next
    case True
    then obtain uvs where uvs: "arr_get (drawingTextureUvs tm) f = Some uvs"
      "intersects (drawingCanvas tm) uvs c r"
      by (auto simp: face_intersects_def split: option.splits)
    let ?nbs = "listed (nAdjacentFaces tm, AdjacentFacesList tm) (nat f)"
    have es: "adjacent_entries tm f = Inr (map Some ?nbs)"
      using adjacent_entries_ok[OF Suc.prems(1)] True Suc.prems(4) by simp
    have range: "f < int (length (isFloodFill tm))"
      using face_intersects_range[of tm c r f] True Suc.prems(2) by (simp add: covered_def)
    have less: "unvisited (mark f tm) < d"
      using unvisited_mark_less[of f tm] True range Suc.prems(3) by simp
    have cov: "covered (mark f tm)" using Suc.prems(2) by (simp add: covered_def mark_def)
    have sc: "scene_ok (mark f tm)" using scene_ok_frame[OF frame_mark] Suc.prems(1) by simp
    have g: "geometry (mark f tm) = geometry tm" by (simp add: mark_def)
    have "nat f < length (faces (geometry tm))" using Suc.prems(4) True by linarith
    then have nbs: "\<forall>nb\<in>set ?nbs. nb < length (faces (geometry (mark f tm)))"
      using Suc.prems(1) unfolding scene_ok_def g by blast
    have "\<exists>tm'. visit_adjacent d (map Some ?nbs) c r (mark f tm) = Some (Inr tm')"
      using sc cov less nbs
    proof (rule visit_adjacent_total[rotated])
      show "\<And>f tm. scene_ok tm \<Longrightarrow> covered tm \<Longrightarrow> unvisited tm < d
          \<Longrightarrow> f < int (length (faces (geometry tm)))
          \<Longrightarrow> \<exists>tm'. add_recursive d f c r tm = Some (Inr tm')"
        by (rule Suc.IH)
    qed
    then show ?thesis using True uvs es by (simp add: visited_def)
  qed
qed

lemma onStrokePainted_total:
  assumes "stroke_ready tm" "scene_ok tm" "seed < int (length (faces (geometry tm)))"
  shows "\<exists>tm'. onStrokePainted (seed # others) c r tm = Some (Inr tm')"
proof -
  let ?tm1 = "tm \<lparr> isFloodFill := replicate (length (isFloodFill tm)) 0 \<rparr>"
  have fr: "frame tm ?tm1"
    unfolding frame_def
    by (rule exI[of _ "replicate (length (isFloodFill tm)) 0"], rule exI[of _ "recorder tm"]) simp
  have "scene_ok ?tm1" using scene_ok_frame[OF fr] assms(2) by simp
  moreover have "covered ?tm1" using assms(1) by (simp add: stroke_ready_def fill_inv_def covered_def)
  moreover have "unvisited ?tm1 < Suc (length (isFloodFill tm))" by (simp add: unvisited_def)
  moreover have "seed < int (length (faces (geometry ?tm1)))" using assms(3) by simp
  ultimately show ?thesis
    unfolding onStrokePainted_hit[OF assms(1)] by (rule add_recursive_total)
qed

lemma sound_scene: "sound tm \<Longrightarrow> scene_ok tm"
  by (simp add: sound_def scene_ok_def)

lemma new_sound:
  assumes wi: "well_indexed g" and bd: "bounded_degree g"
  shows "\<exists>tm. new_TextureManager g cam = Inr tm \<and> sound tm \<and> geometry tm = g"
proof -
  let ?F = "length (faces g)"
  from build_adjacency_linked[OF wi bd] obtain s where
    b: "build_adjacency g = Inr s" and l: "linked g ?F {(i, j). i < j \<and> j < ?F} s" by blast
  from new_TextureManager_built[OF b, of cam] obtain tm where
    tm: "new_TextureManager g cam = Inr tm"
    and fields: "(nAdjacentFaces tm, AdjacentFacesList tm) = s" by blast
  have F32: "?F \<le> 2 ^ 32" using bd by (simp add: bounded_degree_def)
  have ready: "stroke_ready tm" using new_ready[OF tm F32] .
  have rest: "geometry tm = g" "length (drawingTextureUvs tm) = ?F" "length (isFloodFill tm) = ?F"
    "length (isFaceAffected (recorder tm)) = ?F" "length (viewingTextureUvs tm) = ?F"
    "length (viewingMaterial tm) = ?F" "length (drawingVertexUvs tm) = length (vertices g)"
    using tm
    by (auto simp: new_TextureManager_def new_AffectedFacesRecorder_def Let_def split: sum.splits)
  have sh: "shaped ?F s" using l by (simp add: linked_def)
  have ent: "\<forall>x<?F. \<forall>y\<in>set (listed s x). y < ?F"
  proof (intro allI impI ballI)
    fix x y assume x: "x < ?F" and y: "y \<in> set (listed s x)"
    have "set (listed s x) = {y. y < ?F \<and> ((x, y) \<in> {(i, j). i < j \<and> j < ?F}
        \<or> (y, x) \<in> {(i, j). i < j \<and> j < ?F}) \<and> coincidences g x y = 2}"
      using l x unfolding linked_def by blast
    then show "y < ?F" using y by blast
  qed
  have "sound tm"
    unfolding sound_def rest fields using wi ready rest(2-7) sh ent by simp
  then show ?thesis using tm rest(1) by blast
qed

lemma add_recursive_recorder_length:
  "add_recursive d f c r tm = Some (Inr tm')
     \<Longrightarrow> length (isFaceAffected (recorder tm')) = length (isFaceAffected (recorder tm))"
  by (rule add_recursive_rel[where R = "\<lambda>s t. length (isFaceAffected (recorder t))
        = length (isFaceAffected (recorder s))"])
    (auto simp: mark_def add_length)

lemma onStrokePainted_sound:
  assumes "sound tm" "onStrokePainted hits c r tm = Some (Inr tm')"
  shows "sound tm'"
proof (cases hits)
  case Nil
  then show ?thesis using assms by (simp add: onStrokePainted_def)
next
  case (Cons seed others)
  have ready: "stroke_ready tm" using assms(1) by (simp add: sound_def)
  let ?tm1 = "tm \<lparr> isFloodFill := replicate (length (isFloodFill tm)) 0 \<rparr>"
  have run: "add_recursive (Suc (length (isFloodFill tm))) seed c r ?tm1 = Some (Inr tm')"
    using assms(2) unfolding Cons onStrokePainted_hit[OF ready] .
  from add_recursive_frame[OF run] obtain b q where
    eq: "tm' = tm \<lparr> isFloodFill := b, recorder := q \<rparr>"
    unfolding frame_def by auto
  have lb: "length b = length (isFloodFill tm)" using add_recursive_length[OF run] eq by simp
  have lq: "length (isFaceAffected q) = length (isFaceAffected (recorder tm))"
    using add_recursive_recorder_length[OF run] eq by simp
  have "stroke_ready tm'" using onStrokePainted_ready[OF ready assms(2)] .
  then show ?thesis
    using assms(1) lb lq unfolding sound_def eq by simp
qed

lemma face_uvs_total:
  assumes "\<forall>f\<in>set fs. \<forall>v\<in>set (corners f). v < length vuvs"
  shows "\<exists>fuvs. face_uvs vuvs fs = Inr fuvs"
  using assms
proof (induction fs)
  case Nil
  then show ?case by simp
next
  case (Cons f fs)
  then obtain rest where "face_uvs vuvs fs = Inr rest" by auto
  moreover have "face_a f < length vuvs" "face_b f < length vuvs" "face_c f < length vuvs"
    using Cons.prems by (simp_all add: corners_def)
  ultimately show ?case by (simp add: arr_get_def)
qed

lemma prepareDrawingTexture_sound:
  assumes "sound tm"
  shows "\<exists>tm'. prepareDrawingTexture rd pr tm = Inr tm' \<and> sound tm'"
proof -
  let ?g = "geometry tm"
  let ?vuvs = "map (\<lambda>p. ((fst (pr p) + 1) / 2, (fst (snd (pr p)) + 1) / 2)) (vertices ?g)
      @ drop (length (vertices ?g)) (drawingVertexUvs tm)"
  have lens: "length (drawingVertexUvs tm) = length (vertices ?g)"
    "length (drawingTextureUvs tm) = length (faces ?g)"
    and wi: "well_indexed ?g"
    using assms by (simp_all add: sound_def)
  have lv: "length ?vuvs = length (vertices ?g)" using lens by simp
  have "\<forall>f\<in>set (faces ?g). \<forall>v\<in>set (corners f). v < length ?vuvs"
    using wi unfolding lv well_indexed_def .
  from face_uvs_total[OF this] obtain fuvs where fu: "face_uvs ?vuvs (faces ?g) = Inr fuvs"
    by blast
  let ?tm' = "tm \<lparr> drawingCanvas := rd, drawingVertexUvs := ?vuvs,
      drawingTextureUvs := fuvs @ drop (length fuvs) (drawingTextureUvs tm) \<rparr>"
  have run: "prepareDrawingTexture rd pr tm = Inr ?tm'"
    using lens fu by (simp add: prepareDrawingTexture_def Let_def)
  have ready: "stroke_ready ?tm'"
    using prepareDrawingTexture_ready[OF _ run] assms by (simp add: sound_def)
  have "length (fuvs @ drop (length fuvs) (drawingTextureUvs tm)) = length (faces ?g)"
    using face_uvs_length[OF fu] lens by simp
  then have "sound ?tm'"
    using assms ready lv unfolding sound_def by simp
  then show ?thesis using run by blast
qed

lemma assign_patch_geometry:
  "assign_patch p conv args tm = Inr tm' \<Longrightarrow> geometry tm' = geometry tm"
proof (induction args arbitrary: tm)
  case Nil
  then show ?case by simp
next
  case (Cons a args)
  show ?case
  proof (cases a)
    case None
    then show ?thesis using Cons.prems by simp
  next
    case (Some g)
    from Cons.prems(1) Some obtain d0 d1 d2 where
      rest: "assign_patch p conv args
          (tm \<lparr> viewingMaterial := (viewingMaterial tm)[g := p],
                viewingTextureUvs := (viewingTextureUvs tm)[g := (conv d0, conv d1, conv d2)] \<rparr>)
        = Inr tm'"
      by (auto split: option.splits prod.splits)
    show ?thesis using Cons.IH[OF rest] by simp
  qed
qed

lemma collect_uvs_total:
  assumes "\<forall>f\<in>set fs. f < length (drawingTextureUvs tm)"
  shows "\<exists>uvss. collect_uvs tm (map Some fs) = Inr uvss"
  using assms
proof (induction fs)
  case Nil
  then show ?case by simp
next
  case (Cons f fs)
  then obtain rest where "collect_uvs tm (map Some fs) = Inr rest" by auto
  then show ?case using Cons.prems by (simp add: arr_get_def)
qed

lemma assign_patch_total:
  "\<forall>f\<in>set fs. f < length (drawingTextureUvs tm) \<and> f < length (viewingMaterial tm)
        \<and> f < length (viewingTextureUvs tm)
     \<Longrightarrow> \<exists>vm vu. assign_patch p conv (map Some fs) tm =
            Inr (tm \<lparr> viewingMaterial := vm, viewingTextureUvs := vu \<rparr>)
          \<and> length vm = length (viewingMaterial tm)
          \<and> length vu = length (viewingTextureUvs tm)"
proof (induction fs arbitrary: tm)
  case Nil
  have "tm = tm \<lparr> viewingMaterial := viewingMaterial tm, viewingTextureUvs := viewingTextureUvs tm \<rparr>"
    by simp
  then show ?case by (metis assign_patch.simps(1) list.simps(8))
next
  case (Cons f fs)
  obtain d0 d1 d2 where d: "drawingTextureUvs tm ! f = (d0, d1, d2)"
    by (cases "drawingTextureUvs tm ! f") auto
  let ?tm1 = "tm \<lparr> viewingMaterial := (viewingMaterial tm)[f := p],
      viewingTextureUvs := (viewingTextureUvs tm)[f := (conv d0, conv d1, conv d2)] \<rparr>"
  have step: "assign_patch p conv (map Some (f # fs)) tm = assign_patch p conv (map Some fs) ?tm1"
    using Cons.prems d by (simp add: arr_get_def)
  have "\<forall>f\<in>set fs. f < length (drawingTextureUvs ?tm1) \<and> f < length (viewingMaterial ?tm1)
        \<and> f < length (viewingTextureUvs ?tm1)"
    using Cons.prems by simp
  from Cons.IH[OF this] obtain vm vu where
    r: "assign_patch p conv (map Some fs) ?tm1 = Inr (?tm1 \<lparr> viewingMaterial := vm, viewingTextureUvs := vu \<rparr>)"
    and l: "length vm = length (viewingMaterial ?tm1)" "length vu = length (viewingTextureUvs ?tm1)"
    by blast
  have "?tm1 \<lparr> viewingMaterial := vm, viewingTextureUvs := vu \<rparr>
      = tm \<lparr> viewingMaterial := vm, viewingTextureUvs := vu \<rparr>" by simp
  then show ?case using step r l by auto
qed

lemma prepareViewingTexture_sound:
  assumes "sound tm"
  shows "\<exists>tm'. prepareViewingTexture tm = Inr tm' \<and> sound tm'"
proof (cases "nAffectedFaces (recorder tm) > 0")
  case False
  then show ?thesis using assms by (simp add: prepareViewingTexture_def)
next
  case True
  let ?r = "recorder tm" and ?F = "length (faces (geometry tm))"
  let ?fs = "take (nAffectedFaces ?r) (affectedFaces ?r)"
  have ok: "recorder_ok ?r" and lens: "length (isFaceAffected ?r) = ?F"
    "length (drawingTextureUvs tm) = ?F" "length (viewingMaterial tm) = ?F"
    "length (viewingTextureUvs tm) = ?F"
    using assms by (simp_all add: sound_def stroke_ready_def fill_inv_def)
  have st: "set ?fs = {f. f < length (isFaceAffected ?r) \<and> isFaceAffected ?r ! f \<noteq> 0}"
    and le: "nAffectedFaces ?r \<le> length (affectedFaces ?r)"
    using ok unfolding recorder_ok_def by blast+
  have args: "forEach_args ?r = map Some ?fs" using forEach_args_ok[OF le] .
  have small: "\<forall>f\<in>set ?fs. f < ?F" unfolding st using lens(1) by simp
  from collect_uvs_total[of ?fs tm] small lens(2)
  obtain uvss where col: "collect_uvs tm (forEach_args ?r) = Inr uvss" unfolding args by auto
  let ?p = "extract_patch (drawingCanvas tm) uvss" and ?conv = "patch_uv (drawingCanvas tm) uvss"
  from assign_patch_total[of ?fs tm ?p ?conv] small lens(2-4)
  obtain vm vu where
    asg: "assign_patch ?p ?conv (forEach_args ?r) tm =
        Inr (tm \<lparr> viewingMaterial := vm, viewingTextureUvs := vu \<rparr>)"
    and lv: "length vm = ?F" "length vu = ?F"
    unfolding args by auto
  from reset_ok[OF ok] obtain r' where
    rs: "reset ?r = Inr r'" "recorder_ok r'" "length (isFaceAffected r') = length (isFaceAffected ?r)"
    by blast
  let ?tm' = "tm \<lparr> viewingMaterial := vm, viewingTextureUvs := vu, recorder := r' \<rparr>"
  have run: "prepareViewingTexture tm = Inr ?tm'"
    using True col asg rs(1)
    by (simp add: prepareViewingTexture_def extract_patch_def patch_uv_def Let_def)
  have "sound ?tm'"
    using assms rs(2,3) lv unfolding sound_def stroke_ready_def fill_inv_def covered_def by simp
  then show ?thesis using run by blast
qed

lemma run_op_sound:
  assumes "sound tm" "well_seeded (length (faces (geometry tm))) x"
  shows "\<exists>tm'. run_op x tm = Some (Inr tm') \<and> sound tm' \<and> geometry tm' = geometry tm"
proof (cases x)
  case PrepareViewing
  from prepareViewingTexture_sound[OF assms(1)] obtain tm' where
    r: "prepareViewingTexture tm = Inr tm'" "sound tm'" by blast
  have "geometry tm' = geometry tm"
  proof (cases "nAffectedFaces (recorder tm) > 0")
    case False
    then show ?thesis using r(1) by (simp add: prepareViewingTexture_def)
  next
    case True
    from r(1) True show ?thesis
    proof (rule prepareViewingTexture_steps)
      fix uvss tm1 q
      assume a: "assign_patch (extract_patch (drawingCanvas tm) uvss)
          (patch_uv (drawingCanvas tm) uvss) (forEach_args (recorder tm)) tm = Inr tm1"
        and t: "tm' = tm1 \<lparr> recorder := q \<rparr>"
      show ?thesis using assign_patch_geometry[OF a] by (simp add: t)
    qed
  qed
  then show ?thesis using r PrepareViewing by simp
next
  case (PrepareDrawing rd pr)
  from prepareDrawingTexture_sound[OF assms(1), of rd pr] obtain tm' where
    r: "prepareDrawingTexture rd pr tm = Inr tm'" "sound tm'" by blast
  have "geometry tm' = geometry tm"
    using r(1) by (auto simp: prepareDrawingTexture_def Let_def split: if_splits sum.splits)
  then show ?thesis using r PrepareDrawing by simp
next
  case (StrokePainted hits pos radius)
  show ?thesis
  proof (cases hits)
    case Nil
    then show ?thesis using assms(1) StrokePainted by (simp add: onStrokePainted_def)
  next
    case (Cons seed others)
    have seed: "seed < int (length (faces (geometry tm)))"
      using assms(2) StrokePainted Cons by simp
    have ready: "stroke_ready tm" using assms(1) by (simp add: sound_def)
    from onStrokePainted_total[OF ready sound_scene[OF assms(1)] seed, of others pos radius]
    obtain tm' where r: "onStrokePainted (seed # others) pos radius tm = Some (Inr tm')" by blast
    have s: "sound tm'" using onStrokePainted_sound[OF assms(1) r] .
    have "frame (tm \<lparr> isFloodFill := replicate (length (isFloodFill tm)) 0 \<rparr>) tm'"
      using r unfolding onStrokePainted_hit[OF ready] by (rule add_recursive_frame)
    then have "geometry tm' = geometry tm" unfolding frame_def by auto
    then show ?thesis using r s StrokePainted Cons by simp
  qed
next
  case (CameraMoved p)
  have "sound (tm \<lparr> camera_position := p \<rparr>)"
    using assms(1) unfolding sound_def stroke_ready_def fill_inv_def covered_def by simp
  then show ?thesis using CameraMoved by simp
qed

lemma run_ops_sound:
  "sound tm \<Longrightarrow> \<forall>x\<in>set xs. well_seeded (length (faces (geometry tm))) x
     \<Longrightarrow> \<exists>tm'. run_ops xs tm = Some (Inr tm') \<and> sound tm' \<and> geometry tm' = geometry tm"
proof (induction xs arbitrary: tm)
  case Nil
  then show ?case by simp
next
  case (Cons x xs)
  from run_op_sound[OF Cons.prems(1), of x] Cons.prems(2)
  obtain tm1 where one: "run_op x tm = Some (Inr tm1)" "sound tm1" "geometry tm1 = geometry tm"
    by auto
  from Cons.IH[OF one(2)] Cons.prems(2) one(3)
  obtain tm' where "run_ops xs tm1 = Some (Inr tm')" "sound tm'" "geometry tm' = geometry tm1"
    by auto
  then show ?case using one by simp
qed

section \<open>Connectivity of the fill and the unfiltered seed\<close>

lemma sound_square_drawn: "sound (square_drawn cam)"
proof -
  have wi: "well_indexed square" by (simp add: well_indexed_def square_def corners_def)
  have "length (faces square) \<le> 256" by (simp add: square_def)
  from new_sound[OF wi small_mesh_bounded[OF this], of cam]
  have "sound (square_tm cam)" by (simp add: new_square)
  from prepareDrawingTexture_sound[OF this, of blank100 "\<lambda>p. p"]
  show ?thesis by (simp add: draw_square)
qed

text \<open>
  C6. A flood-fill run on a state ready for a stroke returns, and on a sound state with
  a seed that is a face of the mesh it returns a state. When it returns a state, every
  face it marked (the bitmap having been cleared at its start) is joined to the seed by
  a chain of marked faces, each of which passed the intersection test with the stroke
  circle and each of which, the seed apart, is an adjacency entry of its predecessor
  that passed the front-facing filter. The faces the recorder holds afterwards are those
  it held before and those the run marked.
\<close>

theorem flood_fill_connected:
  assumes "stroke_ready tm"
  shows "onStrokePainted (seed # others) c r tm \<noteq> None
    \<and> (scene_ok tm \<and> seed < int (length (faces (geometry tm))) \<longrightarrow>
          (\<exists>tm'. onStrokePainted (seed # others) c r tm = Some (Inr tm')))
    \<and> (\<forall>tm'. onStrokePainted (seed # others) c r tm = Some (Inr tm') \<longrightarrow>
          (\<forall>x\<in>visited tm'. connected_from tm c r (visited tm') seed x
                              \<and> face_intersects tm c r x)
          \<and> members (recorder tm') =
              members (recorder tm) \<union> (\<lambda>f. Some (nat f)) ` visited tm')"
proof (intro conjI allI impI ballI)
  show "onStrokePainted (seed # others) c r tm \<noteq> None"
    using assms by (rule onStrokePainted_returns)
next
  assume "scene_ok tm \<and> seed < int (length (faces (geometry tm)))"
  then show "\<exists>tm'. onStrokePainted (seed # others) c r tm = Some (Inr tm')"
    using onStrokePainted_total[OF assms] by blast
next
  fix tm' x
  assume run: "onStrokePainted (seed # others) c r tm = Some (Inr tm')" and x: "x \<in> visited tm'"
  show "connected_from tm c r (visited tm') seed x"
    using onStrokePainted_run(1)[OF assms run] x by blast
  then show "face_intersects tm c r x"
    unfolding connected_from_def using chain_last by fastforce
next
  fix tm'
  assume run: "onStrokePainted (seed # others) c r tm = Some (Inr tm')"
  show "members (recorder tm') = members (recorder tm) \<union> (\<lambda>f. Some (nat f)) ` visited tm'"
    by (rule onStrokePainted_run(2)[OF assms run])
qed

theorem flood_fill_connected_witness:
  "stroke_ready (square_drawn (0, 0, 1)) \<and> scene_ok (square_drawn (0, 0, 1))
   \<and> onStrokePainted [0] (90, 40) 100 (square_drawn (0, 0, 1)) = Some (Inr square_filled)
   \<and> 1 \<in> visited square_filled
   \<and> connected_from (square_drawn (0, 0, 1)) (90, 40) 100 (visited square_filled) 0 1
   \<and> face_intersects (square_drawn (0, 0, 1)) (90, 40) 100 1"
proof -
  let ?tm = "square_drawn (0, 0, 1)"
  have run: "onStrokePainted [0] (90, 40) 100 ?tm = Some (Inr square_filled)"
    by (simp add: eval_defs square_defs square_filled_def numeral_2_eq_2)
  have v: "1 \<in> visited square_filled"
    by (simp add: visited_def ta_get_def square_filled_def)
  have sc: "scene_ok ?tm" using sound_square_drawn by (rule sound_scene)
  show ?thesis
    using flood_fill_connected[OF ready_square_drawn, of 0 "[]" "(90, 40)" 100 "(0, 0, 1)"]
      run v sc ready_square_drawn
    by blast
qed

text \<open>
  C10. The seed of a flood-fill run is accepted on the intersection test alone: when its
  projected triangle passes the test, it is marked in the bitmap and held by the
  recorder, whatever its normal (on a sound state the run does return a state). Every
  other face the run marks is an adjacency entry that passed the front-facing filter.
\<close>

theorem seed_not_filtered:
  assumes "stroke_ready tm" "face_intersects tm c r seed"
  shows "(scene_ok tm \<longrightarrow> (\<exists>tm'. onStrokePainted (seed # others) c r tm = Some (Inr tm')))
    \<and> (\<forall>tm'. onStrokePainted (seed # others) c r tm = Some (Inr tm') \<longrightarrow>
          seed \<in> visited tm' \<and> contains (recorder tm') seed
          \<and> Some (nat seed) \<in> members (recorder tm')
          \<and> (\<forall>x\<in>visited tm'. x \<noteq> seed \<longrightarrow> front_facing tm (nat x) = Inr True))"
proof (intro conjI allI impI)
  assume sc: "scene_ok tm"
  have "seed < int (length (faces (geometry tm)))"
    using face_intersects_range[OF assms(2)] sc by (simp add: scene_ok_def)
  then show "\<exists>tm'. onStrokePainted (seed # others) c r tm = Some (Inr tm')"
    using onStrokePainted_total[OF assms(1) sc] by blast
next
  fix tm'
  assume r: "onStrokePainted (seed # others) c r tm = Some (Inr tm')"
  note run = onStrokePainted_run[OF assms(1) r]
  show s: "seed \<in> visited tm'" using run(5) assms(2) by simp
  show m: "Some (nat seed) \<in> members (recorder tm')" using run(2) s by blast
  have "0 \<le> seed" using face_intersects_range[OF assms(2)] by simp
  then show "contains (recorder tm') seed" using members_contains[OF run(3) m] by simp
  show "\<forall>x\<in>visited tm'. x \<noteq> seed \<longrightarrow> front_facing tm (nat x) = Inr True"
  proof (intro ballI impI)
    fix x assume x: "x \<in> visited tm'" "x \<noteq> seed"
    have "chain (face_intersects tm c r) (fill_step tm) (visited tm') seed x"
      using run(1) x(1) by (simp add: connected_from_def)
    from chain_stepped[OF this x(2)] obtain y nb where "x = int nb" "fill_step tm y nb"
      by blast
    then show "front_facing tm (nat x) = Inr True" by (auto simp: fill_step_def split: sum.splits)
  qed
qed

theorem seed_not_filtered_witness:
  "front_facing (square_drawn (0, 0, - 1)) 0 = Inr False
   \<and> stroke_ready (square_drawn (0, 0, - 1)) \<and> scene_ok (square_drawn (0, 0, - 1))
   \<and> face_intersects (square_drawn (0, 0, - 1)) (90, 40) 100 0
   \<and> onStrokePainted [0] (90, 40) 100 (square_drawn (0, 0, - 1)) = Some (Inr square_behind)
   \<and> 0 \<in> visited square_behind \<and> contains (recorder square_behind) 0
   \<and> Some 0 \<in> members (recorder square_behind)
   \<and> face_intersects (square_drawn (0, 0, - 1)) (90, 40) 100 1
   \<and> 1 \<notin> visited square_behind"
proof -
  let ?tm = "square_drawn (0, 0, - 1)"
  have away: "front_facing ?tm 0 = Inr False"
    by (simp add: front_facing_code dot_def arr_get_def square_defs)
  have hit: "face_intersects ?tm (90, 40) 100 0" "face_intersects ?tm (90, 40) 100 1"
    by (simp_all add: face_intersects_def eval_defs square_defs)
  have run: "onStrokePainted [0] (90, 40) 100 ?tm = Some (Inr square_behind)"
    by (simp add: eval_defs square_defs square_behind_def numeral_2_eq_2)
  have out: "1 \<notin> visited square_behind"
    by (simp add: visited_def ta_get_def square_behind_def)
  have sc: "scene_ok ?tm" using sound_square_drawn by (rule sound_scene)
  from seed_not_filtered[OF ready_square_drawn hit(1), of "[]", THEN conjunct2] run
  have "0 \<in> visited square_behind \<and> contains (recorder square_behind) 0
      \<and> Some (nat 0) \<in> members (recorder square_behind)" by blast
  then show ?thesis using away hit run out sc ready_square_drawn by simp
qed

section \<open>Further properties: totality of the engine, the edge test, the depth bound\<close>

text \<open>
  The engine is total on meshes as the constructor expects them: for a mesh with valid
  corner indices and no face of more than 255 neighbours, the constructor returns a
  sound state, and any run of operations whose strokes are seeded at faces of the mesh
  returns a sound state; no operation fails or loops.
\<close>

theorem engine_total:
  assumes "well_indexed g" "bounded_degree g"
    and "\<forall>x\<in>set xs. well_seeded (length (faces g)) x"
  shows "\<exists>tm0 tm. new_TextureManager g cam = Inr tm0 \<and> sound tm0
     \<and> run_ops xs tm0 = Some (Inr tm) \<and> sound tm"
proof -
  from new_sound[OF assms(1,2), of cam] obtain tm0 where
    n: "new_TextureManager g cam = Inr tm0" "sound tm0" "geometry tm0 = g" by blast
  from run_ops_sound[OF n(2), of xs] assms(3) n(3)
  obtain tm where "run_ops xs tm0 = Some (Inr tm)" "sound tm" by auto
  then show ?thesis using n by blast
qed

theorem engine_total_witness:
  "well_indexed square \<and> bounded_degree square
   \<and> well_seeded (length (faces square)) (StrokePainted [0] (90, 40) 0)
   \<and> new_TextureManager square (0, 0, 1) = Inr (square_tm (0, 0, 1))
   \<and> run_ops [PrepareDrawing blank100 (\<lambda>p. p), StrokePainted [0] (90, 40) 0, PrepareViewing]
        (square_tm (0, 0, 1)) = Some (Inr square_reconciled)
   \<and> sound square_reconciled"
proof -
  let ?ops = "[PrepareDrawing blank100 (\<lambda>p. p), StrokePainted [0] (90, 40) 0, PrepareViewing]"
  have wi: "well_indexed square" by (simp add: well_indexed_def square_def corners_def)
  have F: "length (faces square) \<le> 256" "length (faces square) = 2" by (simp_all add: square_def)
  have bd: "bounded_degree square" using small_mesh_bounded[OF F(1)] .
  have ws: "\<forall>x\<in>set ?ops. well_seeded (length (faces square)) x" by (simp add: F(2))
  have run: "run_ops ?ops (square_tm (0, 0, 1)) = Some (Inr square_reconciled)"
    by (simp add: draw_square square_dotted_run reconcile_square)
  from engine_total[OF wi bd ws, of "(0, 0, 1)"] new_square[of "(0, 0, 1)"] run
  have "sound square_reconciled" by auto
  then show ?thesis using wi bd new_square run by (simp add: F(2))
qed

text \<open>
  The edge test of the flood fill succeeds only through an endpoint: the nearest point
  of the segment is handed to \<^verbatim>\<open>_pointCircleCollide\<close> as an array, whose \<^verbatim>\<open>x\<close> and
  \<^verbatim>\<open>y\<close> are \<^verbatim>\<open>undefined\<close>, so the third test is never true and a circle that crosses
  an edge without covering one of its endpoints is not detected.
\<close>

theorem lineCircleCollide_endpoints:
  "lineCircleCollide a b circle radius =
     (pointCircleCollide (Vec a) circle radius \<or> pointCircleCollide (Vec b) circle radius)"
  by (simp add: lineCircleCollide_def pointCircleCollide_def Let_def)

text \<open>For example, the circle of radius 2 around (5, 1) crosses the segment from (0, 0)
  to (10, 0), and the test answers no.\<close>

lemma lineCircleCollide_miss:
  "lineCircleCollide (0, 0) (10, 0) (5, 1) 2 = False"
  by (simp add: lineCircleCollide_def pointCircleCollide_def Let_def)

text \<open>
  The depth bound of the model is immaterial: a run of \<^verbatim>\<open>_add_recursive\<close> that returns
  within some depth returns the same result within every greater depth.
\<close>

lemma visit_adjacent_deeper:
  assumes add: "\<And>f tm res. add_recursive d f c r tm = Some res
      \<Longrightarrow> add_recursive (Suc d) f c r tm = Some res"
  shows "visit_adjacent d es c r tm = Some res \<Longrightarrow> visit_adjacent (Suc d) es c r tm = Some res"
proof (induction es arbitrary: tm)
  case Nil
  then show ?case by simp
next
  case (Cons e es)
  show ?case
  proof (cases e)
    case None
    then show ?thesis using Cons.prems by simp
  next
    case (Some nb)
    show ?thesis
    proof (cases "front_facing tm nb")
      case (Inl err)
      then show ?thesis using Cons.prems Some by simp
    next
      case (Inr facing)
      show ?thesis
      proof (cases facing)
        case False
        then show ?thesis using Cons Some Inr by simp
      next
        case True
        show ?thesis
        proof (cases "add_recursive d (int nb) c r tm")
          case None
          then show ?thesis using Cons.prems \<open>e = Some nb\<close> Inr True by simp
        next
          case (Some res1)
          note deeper = add[OF Some]
          show ?thesis
          proof (cases res1)
            case (Inl err)
            then show ?thesis
              using Cons.prems \<open>e = Some nb\<close> \<open>front_facing tm nb = Inr facing\<close> True Some deeper
              by (auto simp del: add_recursive.simps)
          next
            case (Inr tm1)
            then show ?thesis
              using Cons.prems Cons.IH[of tm1] \<open>e = Some nb\<close>
                \<open>front_facing tm nb = Inr facing\<close> True Some deeper
              by (simp del: add_recursive.simps)
          qed
        qed
      qed
    qed
  qed
qed

lemma add_recursive_deeper:
  "add_recursive d f c r tm = Some res \<Longrightarrow> add_recursive (Suc d) f c r tm = Some res"
proof (induction d arbitrary: f tm res)
  case 0
  then show ?case by simp
next
  case (Suc d)
  have v: "visit_adjacent d es c r tm1 = Some res \<Longrightarrow> visit_adjacent (Suc d) es c r tm1 = Some res"
    for es tm1
    by (rule visit_adjacent_deeper[of d c r], rule Suc.IH)
  from Suc.prems show ?case
    by (auto split: if_splits option.splits sum.splits intro: v)
qed

theorem add_recursive_depth_free:
  "add_recursive d f c r tm = Some res \<Longrightarrow> add_recursive (d + k) f c r tm = Some res"
proof (induction k)
  case 0
  then show ?case by simp
next
  case (Suc k)
  from add_recursive_deeper[OF Suc.IH[OF Suc.prems]] show ?case
    by (simp del: add_recursive.simps)
qed

theorem add_recursive_depth_free_witness:
  "add_recursive 3 0 (90, 40) 100 (square_drawn (0, 0, 1)) = Some (Inr square_filled)
   \<and> add_recursive (3 + 7) 0 (90, 40) 100 (square_drawn (0, 0, 1)) = Some (Inr square_filled)"
proof -
  have "add_recursive 3 0 (90, 40) 100 (square_drawn (0, 0, 1)) = Some (Inr square_filled)"
    by (simp add: eval_defs square_defs square_filled_def eval_nat_numeral)
  then show ?thesis using add_recursive_depth_free[of 3 0 "(90, 40)" 100 _ _ 7] by blast
qed

end
